theory Spec2Isabelle
  imports Main
begin

section \<open>Python values, exceptions and the remote collection\<close>

text \<open>
  Metadata values of the vector store are strings, integers and booleans; the configured
  embedding parameters are a dictionary. A dictionary is an association list, looked up
  with \<open>map_of\<close> (the behaviour of \<open>dict.get\<close>: \<open>None\<close> for a missing key).
  Floating-point metadata values are left out.
\<close>

datatype pyval = PStr string | PInt int | PBool bool | PDict "(string \<times> pyval) list"

type_synonym pydict = "(string \<times> pyval) list"

text \<open>Python truthiness, as used by \<open>if collection_ef and ...\<close>.\<close>

fun truthy :: "pyval \<Rightarrow> bool" where
  "truthy (PStr s) = (s \<noteq> [])"
| "truthy (PInt i) = (i \<noteq> 0)"
| "truthy (PBool b) = b"
| "truthy (PDict d) = (d \<noteq> [])"

text \<open>
  Python's \<open>==\<close> on these values: strings and numbers compare by value, a boolean is the
  integer 0 or 1 (\<open>True == 1\<close>), two dictionaries are equal when they have the same keys and
  equal values under each key, whatever the order of their items, and values of different
  kinds differ. \<open>!=\<close> is its negation.
\<close>

fun py_eq :: "pyval \<Rightarrow> pyval \<Rightarrow> bool" where
  "py_eq (PStr a) (PStr b) = (a = b)"
| "py_eq (PInt a) (PInt b) = (a = b)"
| "py_eq (PInt a) (PBool b) = (a = (if b then 1 else 0))"
| "py_eq (PBool a) (PInt b) = ((if a then 1 else 0) = b)"
| "py_eq (PBool a) (PBool b) = (a = b)"
| "py_eq (PDict d) (PDict e) =
     (set (map fst d) = set (map fst e)
      \<and> list_all (\<lambda>(k, v). case map_of e k of
                               None \<Rightarrow> False
                             | Some v' \<Rightarrow> map_of d k \<noteq> Some v \<or> py_eq v v') d)"
| "py_eq _ _ = False"

text \<open>
  The exceptions that can leave the modelled code. \<open>RemoteError\<close> stands for whatever
  the client library raises when a call to the vector store fails.
\<close>

datatype exn = RemoteError | OSError | ValueError | KeyError | TypeError
  | IndexError | AttributeError

text \<open>A stored document: its id, its text, and its metadata (which the store may lack).\<close>

record doc_record =
  rid :: string
  document :: string
  metadata :: "pydict option"

text \<open>The filter \<open>where={"path": p}\<close>: the metadata has the key and its value is the string.\<close>

definition has_path :: "string \<Rightarrow> doc_record \<Rightarrow> bool" where
  "has_path p r = (case metadata r of None \<Rightarrow> False
                   | Some md \<Rightarrow> map_of md ''path'' = Some (PStr p))"

text \<open>The filter \<open>where={"path": {"$in": ps}}\<close>: the value is one of the given strings.\<close>

definition path_in :: "string set \<Rightarrow> doc_record \<Rightarrow> bool" where
  "path_in ps r = (case metadata r of None \<Rightarrow> False
                   | Some md \<Rightarrow> (case map_of md ''path'' of
                                  Some (PStr p) \<Rightarrow> p \<in> ps
                                | _ \<Rightarrow> False))"

text \<open>
  The calls this program issues to the collection. The trace records each call with the
  coroutine that issued it: the main coroutine or the task of the \<open>i\<close>-th file.
\<close>

datatype call =
    Get_where string
  | Get_all
  | Delete_where string
  | Delete_in "string set"
  | Add "string list" "string list" "pydict list"

datatype caller = By_main | By_task nat

datatype outcome = Ok | Fail

section \<open>Configuration, collaborators and program state\<close>

record Config =
  project_root :: string
  files :: "string list"
  recursive :: bool
  force :: bool
  pipe :: bool
  embedding_function :: string
  embedding_params :: pydict

text \<open>
  Everything the program takes from outside: helper functions of modules that are not part
  of the synchronisation code (\<open>expand_path\<close>, \<open>expand_globs\<close>, the chunker, the ignore-rule
  matcher), the operating system (regular files and their contents, \<open>relpath\<close>, the user
  and host names), the source of fresh ids, and the network: \<open>net k\<close> is the outcome of
  the \<open>k\<close>-th call issued to the collection. \<open>read_error p\<close> is the exception with which
  opening the regular file \<open>p\<close> in text mode and reading it through the chunker fails, when
  it does (\<open>PermissionError\<close>, \<open>UnicodeDecodeError\<close>).
\<close>

record world =
  expand_path :: "string \<Rightarrow> string"
  expand_globs :: "string list \<Rightarrow> bool \<Rightarrow> string list"
  relpath :: "string \<Rightarrow> string \<Rightarrow> string"
  chunk :: "string \<Rightarrow> string list"
  match_file :: "string \<Rightarrow> string \<Rightarrow> bool"
  fs :: "string \<rightharpoonup> string"
  read_error :: "string \<rightharpoonup> exn"
  get_uuid :: "nat \<Rightarrow> string"
  net :: "nat \<Rightarrow> outcome"
  max_batch_size :: int
  hostname :: string
  env_USER :: "string option"

definition isfile :: "world \<Rightarrow> string \<Rightarrow> bool" where
  "isfile w p = (fs w p \<noteq> None)"

text \<open>
  Lines 56--57, \<open>with open(full_path_str) as fin: chunks = list(FileChunker(...).chunk(fin))\<close>:
  a path that names no regular file cannot be opened (\<open>OSError\<close>), a regular file may
  still fail to open or to decode, and otherwise the chunker returns the chunks of the
  content.
\<close>

definition readable :: "world \<Rightarrow> string \<Rightarrow> bool" where
  "readable w p \<longleftrightarrow> isfile w p \<and> read_error w p = None"

definition read_chunks :: "world \<Rightarrow> string \<Rightarrow> exn + string list" where
  "read_chunks w p =
     (case fs w p of
        None \<Rightarrow> Inl OSError
      | Some content \<Rightarrow>
          (case read_error w p of
             Some e \<Rightarrow> Inl e
           | None \<Rightarrow> Inr (chunk w content)))"

text \<open>The dictionary \<open>stats\<close> with its three keys.\<close>

record stats =
  add :: int
  update :: int
  removed :: int

text \<open>
  A per-file task is a coroutine; between two suspension points it runs without
  interruption. Its control state names the point where it is suspended:
  \<^item> \<open>Start\<close>: before the query of the existing ids (lines 39--47);
  \<^item> \<open>Found n\<close>: the query returned \<open>n\<close> ids (line 48);
  \<^item> \<open>Deleted\<close>: the delete returned, the counter is not yet incremented (line 51);
  \<^item> \<open>Reading\<close>: before the file is opened (line 56);
  \<^item> \<open>Adding chunks idx\<close>: in the insert loop, before the slice at \<open>idx\<close> (lines 59--66);
  \<^item> \<open>Finished\<close> and \<open>Raised e\<close>: the coroutine has returned or raised.
\<close>

datatype pc = Start | Found nat | Deleted | Reading | Adding "string list" nat
  | Finished | Raised exn

datatype message = Stdout_json stats | Stdout_table stats | Stderr_abort
  | Stdout_collection_failed | Stdout_ef_mismatch pyval | Stderr_ep_warning pyval

record gstate =
  coll :: "doc_record list"
  calls :: "(caller \<times> call) list"
  minted :: nat
  counters :: stats
  lock :: "nat option"
  tasks :: "(string \<times> pc) list"
  queue :: "nat list"
  bar :: nat
  out :: "message list"

section \<open>The per-file task \<open>chunked_add\<close>\<close>

definition set_pc :: "nat \<Rightarrow> pc \<Rightarrow> gstate \<Rightarrow> gstate" where
  "set_pc i p g = g\<lparr>tasks := (tasks g)[i := (fst (tasks g ! i), p)]\<rparr>"

text \<open>A task that returns or raises is handed to \<open>as_completed\<close>'s queue.\<close>

definition complete :: "nat \<Rightarrow> pc \<Rightarrow> gstate \<Rightarrow> gstate" where
  "complete i p g = (set_pc i p g)\<lparr>queue := queue g @ [i]\<rparr>"

definition issue :: "caller \<Rightarrow> call \<Rightarrow> gstate \<Rightarrow> gstate" where
  "issue who c g = g\<lparr>calls := calls g @ [(who, c)]\<rparr>"

definition new_records :: "world \<Rightarrow> nat \<Rightarrow> string \<Rightarrow> string list \<Rightarrow> doc_record list" where
  "new_records w k p inserted =
     map (\<lambda>j. \<lparr>rid = get_uuid w (k + j), document = inserted ! j,
               metadata = Some [(''path'', PStr p)]\<rparr>) [0..<length inserted]"

text \<open>
  One uninterrupted stretch of task \<open>i\<close>. A task that needs the collection lock while
  another task holds it is blocked: the state is unchanged.
\<close>

definition task_step :: "world \<Rightarrow> Config \<Rightarrow> int \<Rightarrow> nat \<Rightarrow> gstate \<Rightarrow> gstate" where
  "task_step w cfg m i g =
    (if length (tasks g) \<le> i then g
     else
       let full_path_str = expand_path w (fst (tasks g ! i)) in
       case snd (tasks g ! i) of
         Start \<Rightarrow>
           if lock g \<noteq> None then g
           else (case net w (length (calls g)) of
                   Fail \<Rightarrow> complete i (Raised RemoteError) (issue (By_task i) (Get_where full_path_str) g)
                 | Ok \<Rightarrow> set_pc i (Found (length (filter (has_path full_path_str) (coll g))))
                          (issue (By_task i) (Get_where full_path_str) g))
       | Found num_existing_chunks \<Rightarrow>
           if num_existing_chunks \<noteq> 0 then
             (if lock g \<noteq> None then g
              else (case net w (length (calls g)) of
                      Fail \<Rightarrow> complete i (Raised RemoteError)
                                (issue (By_task i) (Delete_where full_path_str) g)
                    | Ok \<Rightarrow> set_pc i Deleted
                             (issue (By_task i) (Delete_where full_path_str)
                                (g\<lparr>coll := filter (\<lambda>r. \<not> has_path full_path_str r) (coll g)\<rparr>))))
           else set_pc i Reading
                  (g\<lparr>counters := (counters g)\<lparr>add := add (counters g) + 1\<rparr>\<rparr>)
       | Deleted \<Rightarrow>
           set_pc i Reading
             (g\<lparr>counters := (counters g)\<lparr>update := update (counters g) + 1\<rparr>\<rparr>)
       | Reading \<Rightarrow>
           (case read_chunks w full_path_str of
              Inl e \<Rightarrow> complete i (Raised e) g
            | Inr chunks \<Rightarrow>
                set_pc i (Adding (chunks @ [relpath w full_path_str (project_root cfg)]) 0) g)
       | Adding chunks idx \<Rightarrow>
           if lock g \<noteq> None \<and> lock g \<noteq> Some i then g
           else if m = 0 then complete i (Raised ValueError) (g\<lparr>lock := None\<rparr>)
           else if m < 0 \<or> length chunks \<le> idx then complete i Finished (g\<lparr>lock := None\<rparr>)
           else
             let inserted_chunks = take (nat m) (drop idx chunks);
                 recs = new_records w (minted g) full_path_str inserted_chunks;
                 g1 = issue (By_task i) (Add (map rid recs) (map document recs)
                                 (map (\<lambda>_. [(''path'', PStr full_path_str)]) inserted_chunks))
                        (g\<lparr>minted := minted g + length inserted_chunks\<rparr>)
             in (case net w (length (calls g)) of
                   Fail \<Rightarrow> complete i (Raised RemoteError) (g1\<lparr>lock := None\<rparr>)
                 | Ok \<Rightarrow> set_pc i (Adding chunks (idx + nat m))
                          (g1\<lparr>lock := Some i, coll := coll g @ recs\<rparr>))
       | Finished \<Rightarrow> g
       | Raised e \<Rightarrow> g)"

section \<open>The task pool of \<open>vectorise\<close>\<close>

text \<open>
  The main coroutine awaits the tasks in completion order. \<open>drain\<close> takes the completed
  tasks off the queue: a task that raised re-raises in the main coroutine, any other
  advances the progress bar.
\<close>

fun drain :: "(string \<times> pc) list \<Rightarrow> nat list \<Rightarrow> nat \<Rightarrow> exn option \<times> nat list \<times> nat" where
  "drain ts [] b = (None, [], b)"
| "drain ts (i # q) b =
     (case snd (ts ! i) of
        Raised e \<Rightarrow> (Some e, q, b)
      | _ \<Rightarrow> drain ts q (Suc b))"

datatype pool_result = Pending | AllDone | Crashed exn | Cancelled

definition main_step :: "gstate \<Rightarrow> pool_result \<times> gstate" where
  "main_step g =
     (case drain (tasks g) (queue g) (bar g) of
        (Some e, q, b) \<Rightarrow> (Crashed e, g\<lparr>queue := q, bar := b\<rparr>)
      | (None, q, b) \<Rightarrow>
          (if b = length (tasks g) then AllDone else Pending, g\<lparr>queue := q, bar := b\<rparr>))"

text \<open>
  A schedule says which coroutine runs next: a task, the main coroutine, or the delivery
  of a cancellation to the main coroutine while it awaits a task. A schedule that ends
  before the pool has finished leaves the result \<open>Pending\<close>.
\<close>

datatype event = Task nat | Main | Cancel

fun run_pool :: "world \<Rightarrow> Config \<Rightarrow> int \<Rightarrow> event list \<Rightarrow> gstate \<Rightarrow> pool_result \<times> gstate" where
  "run_pool w cfg m [] g = (Pending, g)"
| "run_pool w cfg m (Task i # es) g = run_pool w cfg m es (task_step w cfg m i g)"
| "run_pool w cfg m (Cancel # es) g = (Cancelled, g)"
| "run_pool w cfg m (Main # es) g =
     (case main_step g of
        (Pending, g') \<Rightarrow> run_pool w cfg m es g'
      | (r, g') \<Rightarrow> (r, g'))"

section \<open>Orphan cleanup and the report\<close>

text \<open>
  The loop over \<open>meta["path"] for meta in all_results["metadatas"]\<close>: a record without
  metadata raises \<open>TypeError\<close>, metadata without the key raises \<open>KeyError\<close>, a path that
  is a string and not a regular file is added to the set \<open>orphanes\<close>.
\<close>

fun collect_orphanes :: "world \<Rightarrow> pydict option list \<Rightarrow> string set \<Rightarrow> exn + string set" where
  "collect_orphanes w [] orphanes = Inr orphanes"
| "collect_orphanes w (None # metas) orphanes = Inl TypeError"
| "collect_orphanes w (Some meta # metas) orphanes =
     (case map_of meta ''path'' of
        None \<Rightarrow> Inl KeyError
      | Some (PStr path) \<Rightarrow>
          collect_orphanes w metas (if \<not> isfile w path then insert path orphanes else orphanes)
      | Some _ \<Rightarrow> collect_orphanes w metas orphanes)"

definition cleanup :: "world \<Rightarrow> gstate \<Rightarrow> exn option \<times> gstate" where
  "cleanup w g =
     (case net w (length (calls g)) of
        Fail \<Rightarrow> (Some RemoteError, issue By_main Get_all g)
      | Ok \<Rightarrow>
          let g1 = issue By_main Get_all g; metadatas = map metadata (coll g) in
          if metadatas = [] then (None, g1)
          else (case collect_orphanes w metadatas {} of
                  Inl e \<Rightarrow> (Some e, g1)
                | Inr orphanes \<Rightarrow>
                    let g2 = g1\<lparr>counters := (counters g1)\<lparr>removed := int (card orphanes)\<rparr>\<rparr> in
                    if card orphanes \<noteq> 0 then
                      (case net w (length (calls g2)) of
                         Fail \<Rightarrow> (Some RemoteError, issue By_main (Delete_in orphanes) g2)
                       | Ok \<Rightarrow> (None, issue By_main (Delete_in orphanes)
                                        (g2\<lparr>coll := filter (\<lambda>r. \<not> path_in orphanes r) (coll g2)\<rparr>)))
                    else (None, g2)))"

definition show_stats :: "Config \<Rightarrow> gstate \<Rightarrow> gstate" where
  "show_stats configs g =
     g\<lparr>out := out g @ [if pipe configs then Stdout_json (counters g)
                         else Stdout_table (counters g)]\<rparr>"

section \<open>Collection set-up and verification (\<open>common.py\<close>)\<close>

record collection =
  c_metadata :: "pydict option"
  c_docs :: "doc_record list"

text \<open>
  \<open>get_or_create_collection\<close> returns the stored collection when there is one, and
  otherwise creates an empty one with the metadata passed in.
\<close>

definition make_or_get_collection :: "world \<Rightarrow> Config \<Rightarrow> collection option \<Rightarrow> exn + collection" where
  "make_or_get_collection w configs remote =
     (case env_USER w of
        None \<Rightarrow> Inl KeyError
      | Some user \<Rightarrow>
          let full_path = expand_path w (project_root configs);
              collection =
                (case remote of
                   Some c \<Rightarrow> c
                 | None \<Rightarrow>
                     \<lparr>c_metadata = Some [(''path'', PStr full_path),
                                          (''hostname'', PStr (hostname w)),
                                          (''created-by'', PStr ''VectorCode''),
                                          (''username'', PStr user),
                                          (''embedding_function'', PStr (embedding_function configs))],
                      c_docs = []\<rparr>)
          in (case c_metadata collection of
                None \<Rightarrow> Inl AttributeError
              | Some md \<Rightarrow>
                  if map_of md ''hostname'' \<noteq> Some (PStr (hostname w))
                     \<or> map_of md ''username'' \<noteq> Some (PStr user)
                     \<or> map_of md ''created-by'' \<noteq> Some (PStr ''VectorCode'')
                  then Inl IndexError
                  else Inr collection))"

definition verify_ef :: "pydict option \<Rightarrow> Config \<Rightarrow> exn + (bool \<times> message list)" where
  "verify_ef coll_metadata configs =
     (case coll_metadata of
        None \<Rightarrow> Inl AttributeError
      | Some md \<Rightarrow>
          let collection_ef = map_of md ''embedding_function'';
              collection_ep = map_of md ''embedding_params''
          in if (case collection_ef of None \<Rightarrow> False
                 | Some ef \<Rightarrow> truthy ef \<and> ef \<noteq> PStr (embedding_function configs))
             then Inr (False, map Stdout_ef_mismatch (case collection_ef of None \<Rightarrow> [] | Some ef \<Rightarrow> [ef]))
             else if (case collection_ep of None \<Rightarrow> False
                      | Some ep \<Rightarrow> truthy ep \<and> \<not> py_eq ep (PDict (embedding_params configs)))
             then Inr (True, map Stderr_ep_warning (case collection_ep of None \<Rightarrow> [] | Some ep \<Rightarrow> [ep]))
             else Inr (True, []))"

section \<open>File selection\<close>

text \<open>\<open>os.path.join(root, ".gitignore")\<close>.\<close>

definition gitignore_path :: "string \<Rightarrow> string" where
  "gitignore_path root =
     (if root = [] then ''.gitignore''
      else if last root = CHR ''/'' then root @ ''.gitignore''
      else root @ ''/.gitignore'')"

text \<open>
  \<open>match_file w content file\<close> stands for
  \<open>GitIgnoreSpec.from_lines(lines).match_file(file)\<close> on the lines of the ignore-file.
\<close>

definition select_files :: "world \<Rightarrow> Config \<Rightarrow> string list" where
  "select_files w configs =
     (let candidates = expand_globs w (files configs) (recursive configs) in
      case fs w (gitignore_path (project_root configs)) of
        Some content \<Rightarrow>
          filter (\<lambda>file. force configs \<or> \<not> match_file w content file) candidates
      | None \<Rightarrow> candidates)"

section \<open>The sync pass \<open>vectorise\<close>\<close>

datatype result = Return int | Raise exn | Running

definition init_state :: "doc_record list \<Rightarrow> string list \<Rightarrow> message list \<Rightarrow> gstate" where
  "init_state docs selected msgs =
     \<lparr>coll = docs, calls = [], minted = 0,
      counters = \<lparr>add = 0, update = 0, removed = 0\<rparr>,
      lock = None, tasks = map (\<lambda>file. (file, Start)) selected,
      queue = [], bar = 0, out = msgs\<rparr>"

text \<open>
  With no file there is no task to await: the loop over \<open>as_completed\<close> ends at once.
\<close>

definition sync_tasks :: "world \<Rightarrow> Config \<Rightarrow> event list \<Rightarrow> gstate \<Rightarrow> pool_result \<times> gstate" where
  "sync_tasks w configs es g =
     (if tasks g = [] then (AllDone, g) else run_pool w configs (max_batch_size w) es g)"

definition finish_pass :: "world \<Rightarrow> Config \<Rightarrow> pool_result \<times> gstate \<Rightarrow> result \<times> gstate" where
  "finish_pass w configs rg =
     (case rg of
        (Pending, g) \<Rightarrow> (Running, g)
      | (Cancelled, g) \<Rightarrow> (Return 1, g\<lparr>out := out g @ [Stderr_abort]\<rparr>)
      | (Crashed e, g) \<Rightarrow> (Raise e, g)
      | (AllDone, g) \<Rightarrow>
          (case cleanup w g of
             (Some e, g') \<Rightarrow> (Raise e, g')
           | (None, g') \<Rightarrow> (Return 0, show_stats configs g')))"

definition vectorise :: "world \<Rightarrow> Config \<Rightarrow> event list \<Rightarrow> collection option \<Rightarrow> result \<times> gstate" where
  "vectorise w configs es remote =
     (case make_or_get_collection w configs remote of
        Inl e \<Rightarrow>
          (if e = IndexError
           then (Return 1, init_state (case remote of None \<Rightarrow> [] | Some c \<Rightarrow> c_docs c) []
                             [Stdout_collection_failed])
           else (Raise e, init_state (case remote of None \<Rightarrow> [] | Some c \<Rightarrow> c_docs c) [] []))
      | Inr collection \<Rightarrow>
          (case verify_ef (c_metadata collection) configs of
             Inl e \<Rightarrow> (Raise e, init_state (c_docs collection) [] [])
           | Inr (False, msgs) \<Rightarrow> (Return 1, init_state (c_docs collection) [] msgs)
           | Inr (True, msgs) \<Rightarrow>
               finish_pass w configs
                 (sync_tasks w configs es
                    (init_state (c_docs collection) (select_files w configs) msgs))))"

section \<open>The orphan set, as the specification words it\<close>

text \<open>
  The stored paths that name no existing file: the strings \<open>p\<close> that are the \<open>path\<close> of
  some stored record while no regular file \<open>p\<close> exists. The cleanup loop
  \<open>collect_orphanes\<close> is compared with this set below.
\<close>

definition orphan_paths :: "world \<Rightarrow> doc_record list \<Rightarrow> string set" where
  "orphan_paths w docs = {p. (\<exists>r \<in> set docs. has_path p r) \<and> \<not> isfile w p}"

section \<open>Measures of a pass\<close>

text \<open>
  A task has run once it has left \<open>Start\<close>; it has decided between add and update once it
  is past the counter increment (or has raised). \<open>stored_paths\<close> is the set of distinct
  \<open>path\<close> values present in a collection.
\<close>

fun has_run :: "pc \<Rightarrow> bool" where
  "has_run Start = False"
| "has_run _ = True"

fun decided :: "pc \<Rightarrow> bool" where
  "decided Start = False"
| "decided (Found n) = False"
| "decided Deleted = False"
| "decided _ = True"

definition tasks_run :: "gstate \<Rightarrow> nat" where
  "tasks_run g = length (filter (\<lambda>t. has_run (snd t)) (tasks g))"

definition stored_paths :: "doc_record list \<Rightarrow> pyval set" where
  "stored_paths docs =
     {v. \<exists>r \<in> set docs. \<exists>md. metadata r = Some md \<and> map_of md ''path'' = Some v}"

definition decided_bound :: "gstate \<Rightarrow> bool" where
  "decided_bound g \<longleftrightarrow>
     add (counters g) + update (counters g)
       \<le> int (length (filter (\<lambda>t. decided (snd t)) (tasks g)))"

section \<open>The calls of one task\<close>

text \<open>
  \<open>own_calls\<close> projects the trace to the calls of one coroutine, \<open>add_docs\<close> lists the
  document batches of its insert calls. \<open>file_chunks\<close> is the chunk list of lines 56--58:
  the chunks of the file's content followed by its path relative to the project root.
  \<open>call_ok m\<close> says that an insert call is well-formed and holds between 1 and \<open>m\<close>
  documents. \<open>batch_inv\<close> relates the batches a task has sent to its control state.
\<close>

definition own_calls :: "caller \<Rightarrow> (caller \<times> call) list \<Rightarrow> call list" where
  "own_calls who cs = map snd (filter (\<lambda>c. fst c = who) cs)"

fun add_docs :: "call list \<Rightarrow> string list list" where
  "add_docs [] = []"
| "add_docs (Add ids docs metas # cs) = docs # add_docs cs"
| "add_docs (c # cs) = add_docs cs"

fun call_ok :: "int \<Rightarrow> call \<Rightarrow> bool" where
  "call_ok m (Add ids docs metas) =
     (docs \<noteq> [] \<and> int (length docs) \<le> m \<and> length ids = length docs
      \<and> length metas = length docs)"
| "call_ok m c = True"

definition file_chunks :: "world \<Rightarrow> Config \<Rightarrow> string \<Rightarrow> string list" where
  "file_chunks w cfg file =
     (case read_chunks w (expand_path w file) of
        Inl e \<Rightarrow> []
      | Inr chunks \<Rightarrow> chunks @ [relpath w (expand_path w file) (project_root cfg)])"

definition batch_inv :: "world \<Rightarrow> Config \<Rightarrow> gstate \<Rightarrow> nat \<Rightarrow> bool" where
  "batch_inv w cfg g i =
     (let C = file_chunks w cfg (fst (tasks g ! i));
          B = add_docs (own_calls (By_task i) (calls g))
      in case snd (tasks g ! i) of
           Adding chunks idx \<Rightarrow> chunks = C \<and> concat B = take idx C
         | Finished \<Rightarrow> concat B = C
         | Raised e \<Rightarrow> (\<exists>k. concat B = take k C)
         | _ \<Rightarrow> B = [])"

section \<open>Invariants of a pass\<close>

text \<open>
  \<open>queue_inv\<close> relates the completion queue and the progress bar to the control states:
  the queue holds completed tasks, each once, every task that raised is still in it, and
  bar plus queue length is the number of completed tasks.
\<close>

fun completed :: "pc \<Rightarrow> bool" where
  "completed Finished = True"
| "completed (Raised e) = True"
| "completed _ = False"

fun raised :: "pc \<Rightarrow> bool" where
  "raised (Raised e) = True"
| "raised _ = False"

definition queue_inv :: "gstate \<Rightarrow> bool" where
  "queue_inv g \<longleftrightarrow>
     distinct (queue g)
     \<and> (\<forall>i \<in> set (queue g). i < length (tasks g) \<and> completed (snd (tasks g ! i)))
     \<and> (\<forall>i < length (tasks g). raised (snd (tasks g ! i)) \<longrightarrow> i \<in> set (queue g))
     \<and> bar g + length (queue g) = length (filter (\<lambda>t. completed (snd t)) (tasks g))"

text \<open>
  \<open>doc_content\<close> is a record without its id. \<open>stored_for p\<close> selects the records of path \<open>p\<close>.
  \<open>chunk_records p chunks\<close> is what an upload of \<open>chunks\<close> under \<open>p\<close> stores, ids aside.
  \<open>first_calls p docs\<close> are the calls a task issues before its inserts, when \<open>docs\<close> is the
  collection at the start of the pass: the query, and the delete if \<open>p\<close> had records.
  \<open>coll_inv\<close> relates the records of a task's path and the task's own calls to its
  control state.
\<close>

definition doc_content :: "doc_record \<Rightarrow> string \<times> pydict option" where
  "doc_content r = (document r, metadata r)"

definition stored_for :: "string \<Rightarrow> doc_record list \<Rightarrow> doc_record list" where
  "stored_for p docs = filter (has_path p) docs"

fun is_add :: "call \<Rightarrow> bool" where
  "is_add (Add ids docs metas) = True"
| "is_add c = False"

definition chunk_records :: "string \<Rightarrow> string list \<Rightarrow> (string \<times> pydict option) list" where
  "chunk_records p chunks = map (\<lambda>d. (d, Some [(''path'', PStr p)])) chunks"

definition first_calls :: "string \<Rightarrow> doc_record list \<Rightarrow> call list" where
  "first_calls p docs =
     Get_where p # (if stored_for p docs = [] then [] else [Delete_where p])"

definition coll_inv :: "world \<Rightarrow> Config \<Rightarrow> doc_record list \<Rightarrow> gstate \<Rightarrow> nat \<Rightarrow> bool" where
  "coll_inv w cfg docs g i =
     (let p = expand_path w (fst (tasks g ! i));
          V = stored_for p (coll g);
          own = own_calls (By_task i) (calls g);
          C = file_chunks w cfg (fst (tasks g ! i))
      in case snd (tasks g ! i) of
           Start \<Rightarrow> V = stored_for p docs \<and> own = []
         | Found n \<Rightarrow> V = stored_for p docs \<and> n = length (stored_for p docs)
                       \<and> own = [Get_where p]
         | Deleted \<Rightarrow> V = [] \<and> stored_for p docs \<noteq> [] \<and> own = first_calls p docs
         | Reading \<Rightarrow> V = [] \<and> own = first_calls p docs
         | Adding chunks idx \<Rightarrow>
             readable w p \<and> chunks = C \<and> map doc_content V = chunk_records p (take idx C)
             \<and> (\<exists>adds. own = first_calls p docs @ adds \<and> (\<forall>c \<in> set adds. is_add c))
         | Finished \<Rightarrow>
             readable w p \<and> map doc_content V = chunk_records p C
             \<and> (\<exists>adds. own = first_calls p docs @ adds \<and> (\<forall>c \<in> set adds. is_add c))
         | Raised e \<Rightarrow> True)"

text \<open>
  A task is past its counter increment in \<open>Reading\<close>, \<open>Adding\<close> and \<open>Finished\<close>.
  \<open>counted_as True\<close> counts such tasks whose path had no record at the start of the pass,
  \<open>counted_as False\<close> those whose path had one. \<open>untouched\<close> holds of the records whose
  path is none of the selected files'.
\<close>

fun bumped :: "pc \<Rightarrow> bool" where
  "bumped Reading = True"
| "bumped (Adding chunks idx) = True"
| "bumped Finished = True"
| "bumped p = False"

definition counted_as :: "bool \<Rightarrow> world \<Rightarrow> doc_record list \<Rightarrow> (string \<times> pc) list \<Rightarrow> nat" where
  "counted_as fresh w docs ts =
     length (filter (\<lambda>t. bumped (snd t)
                          \<and> (stored_for (expand_path w (fst t)) docs = []) = fresh) ts)"

definition counters_inv :: "world \<Rightarrow> doc_record list \<Rightarrow> gstate \<Rightarrow> bool" where
  "counters_inv w docs g \<longleftrightarrow>
     ((\<forall>t \<in> set (tasks g). \<not> raised (snd t)) \<longrightarrow>
        add (counters g) = int (counted_as True w docs (tasks g))
        \<and> update (counters g) = int (counted_as False w docs (tasks g)))"

definition untouched :: "world \<Rightarrow> string list \<Rightarrow> doc_record \<Rightarrow> bool" where
  "untouched w sel r \<longleftrightarrow> (\<forall>f \<in> set sel. \<not> has_path (expand_path w f) r)"

definition data_inv :: "world \<Rightarrow> Config \<Rightarrow> doc_record list \<Rightarrow> string list \<Rightarrow> gstate \<Rightarrow> bool" where
  "data_inv w cfg docs sel g \<longleftrightarrow>
     map fst (tasks g) = sel
     \<and> (\<forall>i < length (tasks g). coll_inv w cfg docs g i)
     \<and> counters_inv w docs g
     \<and> filter (untouched w sel) (coll g) = filter (untouched w sel) docs"

text \<open>
  \<open>solo_done i g g'\<close>: from \<open>g\<close>, task \<open>i\<close> alone has run to its end, the lock is free
  again and nothing else has moved. A collection is well-formed when every record has
  metadata with a \<open>path\<close> key, so that the cleanup loop raises neither \<open>TypeError\<close> nor
  \<open>KeyError\<close>.
\<close>

definition solo_done :: "nat \<Rightarrow> gstate \<Rightarrow> gstate \<Rightarrow> bool" where
  "solo_done i g g' \<longleftrightarrow>
     snd (tasks g' ! i) = Finished \<and> lock g' = None
     \<and> (\<forall>j. j \<noteq> i \<longrightarrow> tasks g' ! j = tasks g ! j)
     \<and> length (tasks g') = length (tasks g)
     \<and> queue g' = queue g @ [i] \<and> bar g' = bar g"

definition well_formed :: "doc_record list \<Rightarrow> bool" where
  "well_formed docs \<longleftrightarrow>
     (\<forall>r \<in> set docs. \<exists>md v. metadata r = Some md \<and> map_of md ''path'' = Some v)"

section \<open>An example project\<close>

text \<open>
  A project \<open>/p\<close> with two files and an ignore-file naming the second one; the chunker
  stand-in returns the content as one chunk, ids are \<open>f\<close>, \<open>ff\<close>, \<open>fff\<close>, ...
\<close>

definition ex_world :: world where
  "ex_world =
     \<lparr>expand_path = (\<lambda>p. p), expand_globs = (\<lambda>specs r. specs),
      relpath = (\<lambda>p start. drop (Suc (length start)) p),
      chunk = (\<lambda>content. [content]),
      match_file = (\<lambda>content file. file = ''/p/'' @ content),
      fs = [''/p/a.txt'' \<mapsto> ''hello'', ''/p/b.txt'' \<mapsto> ''secret'',
            ''/p/.gitignore'' \<mapsto> ''b.txt''],
      read_error = Map.empty,
      get_uuid = (\<lambda>n. replicate (Suc n) CHR ''f''),
      net = (\<lambda>k. Ok), max_batch_size = 2, hostname = ''host'', env_USER = Some ''me''\<rparr>"

definition ex_config :: Config where
  "ex_config =
     \<lparr>project_root = ''/p'', files = [''/p/a.txt'', ''/p/b.txt''], recursive = False,
      force = False, pipe = True, embedding_function = ''SentenceTransformer'',
      embedding_params = []\<rparr>"

definition ex_remote_md :: pydict where
  "ex_remote_md =
     [(''hostname'', PStr ''host''), (''username'', PStr ''me''),
      (''created-by'', PStr ''VectorCode''),
      (''embedding_function'', PStr ''SentenceTransformer''),
      (''embedding_params'', PStr ''device=cpu'')]"





text \<open>The same world with a network on which every call fails, and a one-task state.\<close>

definition ex_fail_world :: world where
  "ex_fail_world = ex_world\<lparr>net := (\<lambda>k. Fail)\<rparr>"

definition ex_state :: "pc \<Rightarrow> gstate" where
  "ex_state p =
     \<lparr>coll = [\<lparr>rid = ''old'', document = ''stale'', metadata = Some [(''path'', PStr ''/p/a.txt'')]\<rparr>],
      calls = [], minted = 0, counters = \<lparr>add = 0, update = 0, removed = 0\<rparr>,
      lock = None, tasks = [(''/p/a.txt'', p)], queue = [], bar = 0, out = []\<rparr>"

text \<open>
  A stored collection with two records of a file that is gone and one record whose path
  is a number; a schedule that runs the only task to its end and then the main coroutine;
  the states after the tasks and after the cleanup.
\<close>

definition ex_docs :: "doc_record list" where
  "ex_docs =
     [\<lparr>rid = ''old1'', document = ''x'', metadata = Some [(''path'', PStr ''/p/gone.txt'')]\<rparr>,
      \<lparr>rid = ''old2'', document = ''y'', metadata = Some [(''path'', PStr ''/p/gone.txt'')]\<rparr>,
      \<lparr>rid = ''num'', document = ''z'', metadata = Some [(''path'', PInt 7)]\<rparr>]"

definition ex_sched :: "event list" where
  "ex_sched = [Task 0, Task 0, Task 0, Task 0, Task 0, Main]"

definition ex_synced :: gstate where
  "ex_synced =
     \<lparr>coll = ex_docs @
        [\<lparr>rid = ''f'', document = ''hello'', metadata = Some [(''path'', PStr ''/p/a.txt'')]\<rparr>,
         \<lparr>rid = ''ff'', document = ''a.txt'', metadata = Some [(''path'', PStr ''/p/a.txt'')]\<rparr>],
      calls = [(By_task 0, Get_where ''/p/a.txt''),
               (By_task 0, Add [''f'', ''ff''] [''hello'', ''a.txt'']
                  [[(''path'', PStr ''/p/a.txt'')], [(''path'', PStr ''/p/a.txt'')]])],
      minted = 2, counters = \<lparr>add = 1, update = 0, removed = 0\<rparr>, lock = None,
      tasks = [(''/p/a.txt'', Finished)], queue = [], bar = 1, out = []\<rparr>"

definition ex_cleaned :: gstate where
  "ex_cleaned =
     ex_synced\<lparr>coll := [\<lparr>rid = ''num'', document = ''z'', metadata = Some [(''path'', PInt 7)]\<rparr>,
        \<lparr>rid = ''f'', document = ''hello'', metadata = Some [(''path'', PStr ''/p/a.txt'')]\<rparr>,
        \<lparr>rid = ''ff'', document = ''a.txt'', metadata = Some [(''path'', PStr ''/p/a.txt'')]\<rparr>],
       calls := calls ex_synced @ [(By_main, Get_all), (By_main, Delete_in {''/p/gone.txt''})],
       counters := \<lparr>add = 1, update = 0, removed = 1\<rparr>\<rparr>"

text \<open>
  The stored collection of the example with its metadata, and the state of a pass over it
  whose only task has queried and counted but not yet read its file.
\<close>

definition ex_remote :: collection where
  "ex_remote = \<lparr>c_metadata = Some ex_remote_md, c_docs = ex_docs\<rparr>"

definition ex_in_flight :: gstate where
  "ex_in_flight =
     \<lparr>coll = ex_docs, calls = [(By_task 0, Get_where ''/p/a.txt'')], minted = 0,
      counters = \<lparr>add = 1, update = 0, removed = 0\<rparr>, lock = None,
      tasks = [(''/p/a.txt'', Reading)], queue = [], bar = 0,
      out = [Stderr_ep_warning (PStr ''device=cpu'')]\<rparr>"

text \<open>The example with a maximal batch size of 1: the two chunks go out in two calls.\<close>

definition ex_world1 :: world where
  "ex_world1 = ex_world\<lparr>max_batch_size := 1\<rparr>"

definition ex_sched1 :: "event list" where
  "ex_sched1 = [Task 0, Task 0, Task 0, Task 0, Task 0, Task 0, Main]"

definition ex_synced1 :: gstate where
  "ex_synced1 =
     ex_synced\<lparr>calls := [(By_task 0, Get_where ''/p/a.txt''),
        (By_task 0, Add [''f''] [''hello''] [[(''path'', PStr ''/p/a.txt'')]]),
        (By_task 0, Add [''ff''] [''a.txt''] [[(''path'', PStr ''/p/a.txt'')]])]\<rparr>"

text \<open>
  A second pass over the example: another supply of ids, the collection left by the first
  pass, and the states in which the two passes end.
\<close>

definition ex_world2 :: world where
  "ex_world2 = ex_world\<lparr>get_uuid := (\<lambda>n. replicate (Suc n) CHR ''e''), net := (\<lambda>k. Ok)\<rparr>"

definition ex_md0 :: pydict where
  "ex_md0 = [(''hostname'', PStr ''host''), (''username'', PStr ''me''),
             (''created-by'', PStr ''VectorCode''),
             (''embedding_function'', PStr ''SentenceTransformer'')]"

definition ex_pass1 :: gstate where
  "ex_pass1 = show_stats ex_config ex_cleaned"

definition ex_pass2 :: gstate where
  "ex_pass2 =
     \<lparr>coll = [\<lparr>rid = ''num'', document = ''z'', metadata = Some [(''path'', PInt 7)]\<rparr>,
        \<lparr>rid = ''e'', document = ''hello'', metadata = Some [(''path'', PStr ''/p/a.txt'')]\<rparr>,
        \<lparr>rid = ''ee'', document = ''a.txt'', metadata = Some [(''path'', PStr ''/p/a.txt'')]\<rparr>],
      calls = [(By_task 0, Get_where ''/p/a.txt''), (By_task 0, Delete_where ''/p/a.txt''),
               (By_task 0, Add [''e'', ''ee''] [''hello'', ''a.txt'']
                  [[(''path'', PStr ''/p/a.txt'')], [(''path'', PStr ''/p/a.txt'')]]),
               (By_main, Get_all)],
      minted = 2, counters = \<lparr>add = 0, update = 1, removed = 0\<rparr>, lock = None,
      tasks = [(''/p/a.txt'', Finished)], queue = [], bar = 1,
      out = [Stdout_json \<lparr>add = 0, update = 1, removed = 0\<rparr>]\<rparr>"

section \<open>Verified properties\<close>

subsection \<open>Embedding-function verification\<close>




subsection \<open>File selection\<close>



subsection \<open>The steps of a task\<close>

text \<open>
  Every stretch of a task is one of thirteen cases; the rule below names them and gives the
  state after the step in each.
\<close>

lemmas step_defs = task_step_def Let_def set_pc_def complete_def issue_def

lemma read_chunks_Inr:
  "read_chunks w p = Inr cs \<longleftrightarrow> (\<exists>content. fs w p = Some content \<and> read_error w p = None
                                     \<and> cs = chunk w content)"
  by (auto simp: read_chunks_def split: option.splits)

lemma read_chunks_readable: "read_chunks w p = Inr cs \<Longrightarrow> readable w p"
  by (auto simp: read_chunks_Inr readable_def isfile_def)

lemma readable_read_chunks: "readable w p \<Longrightarrow> \<exists>cs. read_chunks w p = Inr cs"
  by (auto simp: read_chunks_Inr readable_def isfile_def)

lemma task_step_cases [case_names idle query_fail query_ok delete_fail delete_ok bump_add
    bump_update read_fail read_ok add_zero add_done add_fail add_ok]:
  fixes w cfg m i g
  defines "p \<equiv> expand_path w (fst (tasks g ! i))"
  defines "f \<equiv> fst (tasks g ! i)"
  assumes "task_step w cfg m i g = g \<Longrightarrow> P"
    and "\<lbrakk>i < length (tasks g); snd (tasks g ! i) = Start; lock g = None;
          net w (length (calls g)) = Fail;
          task_step w cfg m i g
            = g\<lparr>calls := calls g @ [(By_task i, Get_where p)],
                tasks := (tasks g)[i := (f, Raised RemoteError)],
                queue := queue g @ [i]\<rparr>\<rbrakk> \<Longrightarrow> P"
    and "\<lbrakk>i < length (tasks g); snd (tasks g ! i) = Start; lock g = None;
          net w (length (calls g)) = Ok;
          task_step w cfg m i g
            = g\<lparr>calls := calls g @ [(By_task i, Get_where p)],
                tasks := (tasks g)[i := (f, Found (length (filter (has_path p) (coll g))))]\<rparr>\<rbrakk>
         \<Longrightarrow> P"
    and "\<And>n. \<lbrakk>i < length (tasks g); snd (tasks g ! i) = Found n; n \<noteq> 0; lock g = None;
          net w (length (calls g)) = Fail;
          task_step w cfg m i g
            = g\<lparr>calls := calls g @ [(By_task i, Delete_where p)],
                tasks := (tasks g)[i := (f, Raised RemoteError)],
                queue := queue g @ [i]\<rparr>\<rbrakk> \<Longrightarrow> P"
    and "\<And>n. \<lbrakk>i < length (tasks g); snd (tasks g ! i) = Found n; n \<noteq> 0; lock g = None;
          net w (length (calls g)) = Ok;
          task_step w cfg m i g
            = g\<lparr>coll := filter (\<lambda>r. \<not> has_path p r) (coll g),
                calls := calls g @ [(By_task i, Delete_where p)],
                tasks := (tasks g)[i := (f, Deleted)]\<rparr>\<rbrakk> \<Longrightarrow> P"
    and "\<lbrakk>i < length (tasks g); snd (tasks g ! i) = Found 0;
          task_step w cfg m i g
            = g\<lparr>counters := (counters g)\<lparr>add := add (counters g) + 1\<rparr>,
                tasks := (tasks g)[i := (f, Reading)]\<rparr>\<rbrakk> \<Longrightarrow> P"
    and "\<lbrakk>i < length (tasks g); snd (tasks g ! i) = Deleted;
          task_step w cfg m i g
            = g\<lparr>counters := (counters g)\<lparr>update := update (counters g) + 1\<rparr>,
                tasks := (tasks g)[i := (f, Reading)]\<rparr>\<rbrakk> \<Longrightarrow> P"
    and "\<And>e. \<lbrakk>i < length (tasks g); snd (tasks g ! i) = Reading; read_chunks w p = Inl e;
          task_step w cfg m i g
            = g\<lparr>tasks := (tasks g)[i := (f, Raised e)], queue := queue g @ [i]\<rparr>\<rbrakk>
         \<Longrightarrow> P"
    and "\<And>content. \<lbrakk>i < length (tasks g); snd (tasks g ! i) = Reading;
          read_chunks w p = Inr content;
          task_step w cfg m i g
            = g\<lparr>tasks := (tasks g)[i := (f, Adding (content
                                  @ [relpath w p (project_root cfg)]) 0)]\<rparr>\<rbrakk> \<Longrightarrow> P"
    and "\<And>chunks idx. \<lbrakk>i < length (tasks g); snd (tasks g ! i) = Adding chunks idx;
          lock g = None \<or> lock g = Some i; m = 0;
          task_step w cfg m i g
            = g\<lparr>lock := None, tasks := (tasks g)[i := (f, Raised ValueError)],
                queue := queue g @ [i]\<rparr>\<rbrakk> \<Longrightarrow> P"
    and "\<And>chunks idx. \<lbrakk>i < length (tasks g); snd (tasks g ! i) = Adding chunks idx;
          lock g = None \<or> lock g = Some i; m \<noteq> 0; m < 0 \<or> length chunks \<le> idx;
          task_step w cfg m i g
            = g\<lparr>lock := None, tasks := (tasks g)[i := (f, Finished)],
                queue := queue g @ [i]\<rparr>\<rbrakk> \<Longrightarrow> P"
    and "\<And>chunks idx. \<lbrakk>i < length (tasks g); snd (tasks g ! i) = Adding chunks idx;
          lock g = None \<or> lock g = Some i; 0 < m; idx < length chunks;
          net w (length (calls g)) = Fail;
          task_step w cfg m i g
            = g\<lparr>minted := minted g + length (take (nat m) (drop idx chunks)),
                calls := calls g @ [(By_task i,
                   Add (map rid (new_records w (minted g) p (take (nat m) (drop idx chunks))))
                       (map document (new_records w (minted g) p (take (nat m) (drop idx chunks))))
                       (map (\<lambda>_. [(''path'', PStr p)]) (take (nat m) (drop idx chunks))))],
                lock := None, tasks := (tasks g)[i := (f, Raised RemoteError)],
                queue := queue g @ [i]\<rparr>\<rbrakk> \<Longrightarrow> P"
    and "\<And>chunks idx. \<lbrakk>i < length (tasks g); snd (tasks g ! i) = Adding chunks idx;
          lock g = None \<or> lock g = Some i; 0 < m; idx < length chunks;
          net w (length (calls g)) = Ok;
          task_step w cfg m i g
            = g\<lparr>minted := minted g + length (take (nat m) (drop idx chunks)),
                calls := calls g @ [(By_task i,
                   Add (map rid (new_records w (minted g) p (take (nat m) (drop idx chunks))))
                       (map document (new_records w (minted g) p (take (nat m) (drop idx chunks))))
                       (map (\<lambda>_. [(''path'', PStr p)]) (take (nat m) (drop idx chunks))))],
                lock := Some i,
                coll := coll g @ new_records w (minted g) p (take (nat m) (drop idx chunks)),
                tasks := (tasks g)[i := (f, Adding chunks (idx + nat m))]\<rparr>\<rbrakk> \<Longrightarrow> P"
  shows P
proof (cases "i < length (tasks g)")
  case False
  then have "task_step w cfg m i g = g" by (simp add: task_step_def)
  then show P by (rule assms(3))
next
  case len: True
  show P
  proof (cases "snd (tasks g ! i)")
    case Start
    show P
    proof (cases "lock g = None")
      case False
      with len Start have "task_step w cfg m i g = g" by (simp add: task_step_def)
      then show P by (rule assms(3))
    next
      case True
      show P
      proof (cases "net w (length (calls g))")
        case Ok
        with len Start True show P
          by (intro assms(5)) (simp_all add: step_defs p_def f_def)
      next
        case Fail
        with len Start True show P
          by (intro assms(4)) (simp_all add: step_defs p_def f_def)
      qed
    qed
  next
    case (Found n)
    show P
    proof (cases "n = 0")
      case True
      with len Found show P
        by (intro assms(8)) (simp_all add: step_defs p_def f_def)
    next
      case nz: False
      show P
      proof (cases "lock g = None")
        case False
        with len Found nz have "task_step w cfg m i g = g" by (simp add: task_step_def)
        then show P by (rule assms(3))
      next
        case True
        show P
        proof (cases "net w (length (calls g))")
          case Ok
          with len Found nz True show P
            by (intro assms(7)[of n]) (simp_all add: step_defs p_def f_def)
        next
          case Fail
          with len Found nz True show P
            by (intro assms(6)[of n]) (simp_all add: step_defs p_def f_def)
        qed
      qed
    qed
  next
    case Deleted
    with len show P
      by (intro assms(9)) (simp_all add: step_defs p_def f_def)
  next
    case Reading
    show P
    proof (cases "read_chunks w p")
      case (Inl e)
      with len Reading show P
        by (intro assms(10)[of e]) (simp_all add: step_defs p_def f_def)
    next
      case (Inr content)
      with len Reading show P
        by (intro assms(11)[of content]) (simp_all add: step_defs p_def f_def)
    qed
  next
    case (Adding chunks idx)
    show P
    proof (cases "lock g = None \<or> lock g = Some i")
      case False
      with len Adding have "task_step w cfg m i g = g" by (simp add: task_step_def)
      then show P by (rule assms(3))
    next
      case lk: True
      show P
      proof (cases "m = 0")
        case True
        with len Adding lk show P
          by (intro assms(12)[of chunks idx]) (auto simp add: step_defs p_def f_def)
      next
        case mnz: False
        show P
        proof (cases "m < 0 \<or> length chunks \<le> idx")
          case True
          with len Adding lk mnz show P
            by (intro assms(13)[of chunks idx]) (auto simp add: step_defs p_def f_def)
        next
          case False
          show P
          proof (cases "net w (length (calls g))")
            case Ok
            with len Adding lk mnz False show P
              by (intro assms(15)[of chunks idx]) (auto simp add: step_defs p_def f_def)
          next
            case Fail
            with len Adding lk mnz False show P
              by (intro assms(14)[of chunks idx]) (auto simp add: step_defs p_def f_def)
          qed
        qed
      qed
    qed
  next
    case Finished
    with len have "task_step w cfg m i g = g" by (simp add: task_step_def)
    then show P by (rule assms(3))
  next
    case (Raised e)
    with len have "task_step w cfg m i g = g" by (simp add: task_step_def)
    then show P by (rule assms(3))
  qed
qed


lemma task_step_length [simp]: "length (tasks (task_step w cfg m i g)) = length (tasks g)"
  by (cases rule: task_step_cases[of w cfg m i g]) simp_all

lemma task_step_fst [simp]: "fst (tasks (task_step w cfg m i g) ! j) = fst (tasks g ! j)"
  by (cases rule: task_step_cases[of w cfg m i g]; cases "j = i") simp_all

lemma task_step_other: "j \<noteq> i \<Longrightarrow> tasks (task_step w cfg m i g) ! j = tasks g ! j"
  by (cases rule: task_step_cases[of w cfg m i g]) simp_all

lemma task_step_out [simp]: "out (task_step w cfg m i g) = out g"
  by (cases rule: task_step_cases[of w cfg m i g]) simp_all

lemma task_step_removed [simp]:
  "removed (counters (task_step w cfg m i g)) = removed (counters g)"
  by (cases rule: task_step_cases[of w cfg m i g]) simp_all

lemma ex_state_sel [simp]:
  "calls (ex_state p) = []" "tasks (ex_state p) = [(''/p/a.txt'', p)]"
  "counters (ex_state p) = \<lparr>add = 0, update = 0, removed = 0\<rparr>"
  by (simp_all add: ex_state_def)

subsection \<open>Counters and failing calls\<close>

text \<open>
  C1. A step of a task that issues a call to the collection which fails leaves the shared
  counters (and the collection) exactly as they were before the call and ends the task
  with the error. A counter changes only in a step that issues no call: \<open>add\<close> by one
  from \<open>Found 0\<close>, \<open>update\<close> by one from \<open>Deleted\<close>; and a task reaches \<open>Found n\<close> only
  by its own successful query, \<open>Deleted\<close> only by its own successful delete. A task that
  has raised takes no further step. (An increment made before a later insert fails stays.)
\<close>

theorem failed_call_keeps_counters:
  "(calls (task_step w cfg m i g) \<noteq> calls g \<and> net w (length (calls g)) = Fail
      \<longrightarrow> counters (task_step w cfg m i g) = counters g
          \<and> coll (task_step w cfg m i g) = coll g
          \<and> snd (tasks (task_step w cfg m i g) ! i) = Raised RemoteError
          \<and> (\<exists>c. calls (task_step w cfg m i g) = calls g @ [(By_task i, c)]))
   \<and> (counters (task_step w cfg m i g) \<noteq> counters g
      \<longrightarrow> calls (task_step w cfg m i g) = calls g
          \<and> ((snd (tasks g ! i) = Found 0
                \<and> counters (task_step w cfg m i g)
                    = (counters g)\<lparr>add := add (counters g) + 1\<rparr>)
             \<or> (snd (tasks g ! i) = Deleted
                \<and> counters (task_step w cfg m i g)
                    = (counters g)\<lparr>update := update (counters g) + 1\<rparr>)))
   \<and> (j < length (tasks g) \<and> snd (tasks (task_step w cfg m i g) ! j) = Found n
        \<and> snd (tasks g ! j) \<noteq> Found n
      \<longrightarrow> i = j \<and> snd (tasks g ! j) = Start \<and> net w (length (calls g)) = Ok
          \<and> calls (task_step w cfg m i g)
              = calls g @ [(By_task j, Get_where (expand_path w (fst (tasks g ! j))))])
   \<and> (j < length (tasks g) \<and> snd (tasks (task_step w cfg m i g) ! j) = Deleted
        \<and> snd (tasks g ! j) \<noteq> Deleted
      \<longrightarrow> i = j \<and> net w (length (calls g)) = Ok
          \<and> calls (task_step w cfg m i g)
              = calls g @ [(By_task j, Delete_where (expand_path w (fst (tasks g ! j))))])
   \<and> (i < length (tasks g) \<and> snd (tasks g ! i) = Raised e
      \<longrightarrow> task_step w cfg m i g = g)"
  by (cases rule: task_step_cases[of w cfg m i g]; cases "i = j") auto

theorem failed_call_keeps_counters_witness:
  "counters (task_step ex_fail_world ex_config 2 0 (ex_state Start)) = counters (ex_state Start)
   \<and> snd (tasks (task_step ex_fail_world ex_config 2 0 (ex_state Start)) ! 0) = Raised RemoteError
   \<and> counters (task_step ex_fail_world ex_config 2 0 (ex_state (Found 1)))
       = counters (ex_state (Found 1))
   \<and> counters (task_step ex_world ex_config 2 0 (ex_state (Found 0)))
       = (counters (ex_state (Found 0)))\<lparr>add := add (counters (ex_state (Found 0))) + 1\<rparr>
   \<and> counters (task_step ex_world ex_config 2 0 (ex_state Deleted))
       = (counters (ex_state Deleted))\<lparr>update := update (counters (ex_state Deleted)) + 1\<rparr>
   \<and> net ex_world (length (calls (ex_state Start))) = Ok
   \<and> net ex_world (length (calls (ex_state (Found 1)))) = Ok
   \<and> task_step ex_world ex_config 2 0 (ex_state (Raised RemoteError))
       = ex_state (Raised RemoteError)"
proof -
  note t = failed_call_keeps_counters
  have s1: "task_step ex_fail_world ex_config 2 0 (ex_state Start)
      = (ex_state Start)\<lparr>calls := [(By_task 0, Get_where ''/p/a.txt'')],
           tasks := [(''/p/a.txt'', Raised RemoteError)], queue := [0]\<rparr>"
    by (simp add: step_defs ex_state_def ex_fail_world_def ex_world_def)
  have s2: "task_step ex_fail_world ex_config 2 0 (ex_state (Found 1))
      = (ex_state (Found 1))\<lparr>calls := [(By_task 0, Delete_where ''/p/a.txt'')],
           tasks := [(''/p/a.txt'', Raised RemoteError)], queue := [0]\<rparr>"
    by (simp add: step_defs ex_state_def ex_fail_world_def ex_world_def)
  have s3: "task_step ex_world ex_config 2 0 (ex_state (Found 0))
      = (ex_state (Found 0))\<lparr>counters := \<lparr>add = 1, update = 0, removed = 0\<rparr>,
           tasks := [(''/p/a.txt'', Reading)]\<rparr>"
    by (simp add: step_defs ex_state_def ex_world_def)
  have s4: "task_step ex_world ex_config 2 0 (ex_state Deleted)
      = (ex_state Deleted)\<lparr>counters := \<lparr>add = 0, update = 1, removed = 0\<rparr>,
           tasks := [(''/p/a.txt'', Reading)]\<rparr>"
    by (simp add: step_defs ex_state_def ex_world_def)
  have s5: "task_step ex_world ex_config 2 0 (ex_state Start)
      = (ex_state Start)\<lparr>calls := [(By_task 0, Get_where ''/p/a.txt'')],
           tasks := [(''/p/a.txt'', Found 1)]\<rparr>"
    by (simp add: step_defs ex_state_def ex_world_def has_path_def)
  have s6: "task_step ex_world ex_config 2 0 (ex_state (Found 1))
      = (ex_state (Found 1))\<lparr>coll := [], calls := [(By_task 0, Delete_where ''/p/a.txt'')],
           tasks := [(''/p/a.txt'', Deleted)]\<rparr>"
    by (simp add: step_defs ex_state_def ex_world_def has_path_def)
  have h1: "calls (task_step ex_fail_world ex_config 2 0 (ex_state Start)) \<noteq> calls (ex_state Start)
      \<and> net ex_fail_world (length (calls (ex_state Start))) = Fail"
    unfolding s1 by (simp add: ex_fail_world_def)
  have h2: "calls (task_step ex_fail_world ex_config 2 0 (ex_state (Found 1)))
        \<noteq> calls (ex_state (Found 1))
      \<and> net ex_fail_world (length (calls (ex_state (Found 1)))) = Fail"
    unfolding s2 by (simp add: ex_fail_world_def)
  have h3: "counters (task_step ex_world ex_config 2 0 (ex_state (Found 0)))
        \<noteq> counters (ex_state (Found 0))"
    unfolding s3 by simp
  have h4: "counters (task_step ex_world ex_config 2 0 (ex_state Deleted))
        \<noteq> counters (ex_state Deleted)"
    unfolding s4 by simp
  have h5: "0 < length (tasks (ex_state Start))
      \<and> snd (tasks (task_step ex_world ex_config 2 0 (ex_state Start)) ! 0) = Found 1
      \<and> snd (tasks (ex_state Start) ! 0) \<noteq> Found 1"
    unfolding s5 by simp
  have h6: "0 < length (tasks (ex_state (Found 1)))
      \<and> snd (tasks (task_step ex_world ex_config 2 0 (ex_state (Found 1))) ! 0) = Deleted
      \<and> snd (tasks (ex_state (Found 1)) ! 0) \<noteq> Deleted"
    unfolding s6 by simp
  have h7: "0 < length (tasks (ex_state (Raised RemoteError)))
      \<and> snd (tasks (ex_state (Raised RemoteError)) ! 0) = Raised RemoteError"
    by simp
  have d3: "snd (tasks (ex_state (Found 0)) ! 0) \<noteq> Deleted"
    by simp
  have d4: "snd (tasks (ex_state Deleted) ! 0) \<noteq> Found 0"
    by simp
  from t [of ex_fail_world ex_config 2 0 "ex_state Start"] h1
  have a: "counters (task_step ex_fail_world ex_config 2 0 (ex_state Start)) = counters (ex_state Start)
    \<and> snd (tasks (task_step ex_fail_world ex_config 2 0 (ex_state Start)) ! 0) = Raised RemoteError"
    by blast
  from t [of ex_fail_world ex_config 2 0 "ex_state (Found 1)"] h2
  have b: "counters (task_step ex_fail_world ex_config 2 0 (ex_state (Found 1)))
      = counters (ex_state (Found 1))"
    by blast
  from t [of ex_world ex_config 2 0 "ex_state (Found 0)"] h3 d3
  have c: "counters (task_step ex_world ex_config 2 0 (ex_state (Found 0)))
       = (counters (ex_state (Found 0)))\<lparr>add := add (counters (ex_state (Found 0))) + 1\<rparr>"
    by blast
  from t [of ex_world ex_config 2 0 "ex_state Deleted"] h4 d4
  have d: "counters (task_step ex_world ex_config 2 0 (ex_state Deleted))
       = (counters (ex_state Deleted))\<lparr>update := update (counters (ex_state Deleted)) + 1\<rparr>"
    by blast
  from t [of ex_world ex_config 2 0 "ex_state Start" 0 1] h5
  have e: "net ex_world (length (calls (ex_state Start))) = Ok"
    by blast
  from t [of ex_world ex_config 2 0 "ex_state (Found 1)" 0 0] h6
  have f: "net ex_world (length (calls (ex_state (Found 1)))) = Ok"
    by blast
  from t [of ex_world ex_config 2 0 "ex_state (Raised RemoteError)" 0 0 RemoteError] h7
  have g: "task_step ex_world ex_config 2 0 (ex_state (Raised RemoteError))
      = ex_state (Raised RemoteError)"
    by blast
  from a b c d e f g show ?thesis by blast
qed

subsection \<open>Invariants of the task pool\<close>

lemma main_step_fields [simp]:
  "coll (snd (main_step g)) = coll g" "calls (snd (main_step g)) = calls g"
  "counters (snd (main_step g)) = counters g" "tasks (snd (main_step g)) = tasks g"
  "out (snd (main_step g)) = out g" "minted (snd (main_step g)) = minted g"
  "lock (snd (main_step g)) = lock g"
  by (simp_all add: main_step_def split: prod.splits option.splits)

lemma run_pool_invariant:
  assumes "run_pool w cfg m es g = (r, g')" and "P g"
    and "\<And>g i. P g \<Longrightarrow> P (task_step w cfg m i g)"
    and "\<And>g. P g \<Longrightarrow> P (snd (main_step g))"
  shows "P g'"
  using assms(1,2)
proof (induction es arbitrary: g)
  case Nil
  then show ?case by simp
next
  case (Cons e es)
  show ?case
  proof (cases e)
    case (Task i)
    with Cons.prems have "run_pool w cfg m es (task_step w cfg m i g) = (r, g')" by simp
    moreover have "P (task_step w cfg m i g)" using Cons.prems(2) by (rule assms(3))
    ultimately show ?thesis by (rule Cons.IH)
  next
    case Main
    have pm: "P (snd (main_step g))" using Cons.prems(2) by (rule assms(4))
    show ?thesis
    proof (cases "fst (main_step g) = Pending")
      case True
      with Cons.prems Main have "run_pool w cfg m es (snd (main_step g)) = (r, g')"
        by (simp split: prod.splits pool_result.splits)
      then show ?thesis using pm by (rule Cons.IH)
    next
      case False
      with Cons.prems Main have "g' = snd (main_step g)"
        by (auto split: prod.splits pool_result.splits)
      with pm show ?thesis by simp
    qed
  next
    case Cancel
    with Cons.prems show ?thesis by simp
  qed
qed

lemma run_pool_removed:
  assumes "run_pool w cfg m es g = (r, g')"
  shows "removed (counters g') = removed (counters g)"
  by (rule run_pool_invariant[OF assms, where P = "\<lambda>h. removed (counters h) = removed (counters g)"])
     simp_all

lemma sync_tasks_removed:
  assumes "sync_tasks w cfg es g = (r, g')"
  shows "removed (counters g') = removed (counters g)"
  using assms run_pool_removed by (auto simp: sync_tasks_def split: if_splits)

subsection \<open>Orphan cleanup\<close>

lemma orphan_paths_Cons:
  "orphan_paths w (r # docs) =
     (case metadata r of
        Some md \<Rightarrow> (case map_of md ''path'' of
                      Some (PStr p) \<Rightarrow> if isfile w p then {} else {p}
                    | _ \<Rightarrow> {})
      | None \<Rightarrow> {}) \<union> orphan_paths w docs"
  by (auto simp: orphan_paths_def has_path_def split: option.splits pyval.splits)

lemma collect_orphanes_Inr:
  "collect_orphanes w (map metadata docs) acc = Inr S \<Longrightarrow> S = acc \<union> orphan_paths w docs"
proof (induction docs arbitrary: acc)
  case Nil
  then show ?case by (simp add: orphan_paths_def)
next
  case (Cons r docs)
  show ?case
  proof (cases "metadata r")
    case None
    with Cons.prems show ?thesis by simp
  next
    case (Some md)
    show ?thesis
    proof (cases "map_of md ''path''")
      case None
      with Cons.prems Some show ?thesis by simp
    next
      case v: (Some v)
      show ?thesis
      proof (cases v)
        case (PStr p)
        with Cons.prems Some v
        have "collect_orphanes w (map metadata docs)
                (if \<not> isfile w p then insert p acc else acc) = Inr S" by simp
        then have "S = (if \<not> isfile w p then insert p acc else acc) \<union> orphan_paths w docs"
          by (rule Cons.IH)
        then show ?thesis by (auto simp: orphan_paths_Cons Some v PStr)
      next
        case (PInt n)
        with Cons.prems Some v have "collect_orphanes w (map metadata docs) acc = Inr S" by simp
        then have "S = acc \<union> orphan_paths w docs" by (rule Cons.IH)
        then show ?thesis by (simp add: orphan_paths_Cons Some v PInt)
      next
        case (PBool b)
        with Cons.prems Some v have "collect_orphanes w (map metadata docs) acc = Inr S" by simp
        then have "S = acc \<union> orphan_paths w docs" by (rule Cons.IH)
        then show ?thesis by (simp add: orphan_paths_Cons Some v PBool)
      next
        case (PDict d)
        with Cons.prems Some v have "collect_orphanes w (map metadata docs) acc = Inr S" by simp
        then have "S = acc \<union> orphan_paths w docs" by (rule Cons.IH)
        then show ?thesis by (simp add: orphan_paths_Cons Some v PDict)
      qed
    qed
  qed
qed

lemma orphan_paths_Nil [simp]: "orphan_paths w [] = {}"
  by (simp add: orphan_paths_def)

lemma finite_orphan_paths [simp]: "finite (orphan_paths w docs)"
  by (induction docs) (simp_all add: orphan_paths_Cons split: option.splits pyval.splits)

lemma path_in_empty [simp]: "path_in {} r = False"
  by (simp add: path_in_def split: option.splits pyval.splits)

lemma cleanup_ok:
  assumes "cleanup w g = (None, g')"
  shows "calls g' = calls g @ (By_main, Get_all)
           # (if orphan_paths w (coll g) = {} then []
              else [(By_main, Delete_in (orphan_paths w (coll g)))])
    \<and> coll g' = filter (\<lambda>r. \<not> path_in (orphan_paths w (coll g)) r) (coll g)
    \<and> removed (counters g')
           = (if coll g = [] then removed (counters g) else int (card (orphan_paths w (coll g))))
    \<and> add (counters g') = add (counters g) \<and> update (counters g') = update (counters g)"
proof -
  from assms have ok: "net w (length (calls g)) = Ok"
    by (auto simp: cleanup_def split: outcome.splits)
  show ?thesis
  proof (cases "coll g = []")
    case True
    with assms ok have g': "g' = issue By_main Get_all g"
      by (simp add: cleanup_def Let_def)
    show ?thesis using True by (simp add: g' issue_def)
  next
    case False
    with assms ok obtain S where S: "collect_orphanes w (map metadata (coll g)) {} = Inr S"
      by (auto simp: cleanup_def Let_def split: sum.splits)
    then have SO: "S = orphan_paths w (coll g)"
      by (auto dest: collect_orphanes_Inr)
    have c0: "(card S = 0) = (S = {})" unfolding SO by simp
    show ?thesis
      using assms ok False S c0 unfolding SO[symmetric]
      by (auto simp: cleanup_def Let_def issue_def split: outcome.splits if_splits)
  qed
qed

lemma cleanup_any:
  assumes "cleanup w g = (x, g')"
  shows "(coll g' = coll g \<or> coll g' = filter (\<lambda>r. \<not> path_in (orphan_paths w (coll g)) r) (coll g))
     \<and> (calls g' = calls g @ [(By_main, Get_all)]
        \<or> calls g' = calls g @ [(By_main, Get_all), (By_main, Delete_in (orphan_paths w (coll g)))])"
proof (cases "collect_orphanes w (map metadata (coll g)) {}")
  case (Inl e)
  with assms show ?thesis
    by (auto simp: cleanup_def Let_def issue_def split: outcome.splits if_splits)
next
  case (Inr S)
  then have SO: "S = orphan_paths w (coll g)"
    by (auto dest: collect_orphanes_Inr)
  show ?thesis
    using assms Inr unfolding SO[symmetric]
    by (auto simp: cleanup_def Let_def issue_def split: outcome.splits if_splits)
qed

lemma ex_sync_run:
  "sync_tasks ex_world ex_config ex_sched (init_state ex_docs [''/p/a.txt''] []) = (AllDone, ex_synced)"
  by (simp add: sync_tasks_def ex_sched_def init_state_def step_defs read_chunks_def main_step_def ex_world_def
        ex_docs_def has_path_def new_records_def ex_synced_def ex_config_def)

lemma ex_orphans: "orphan_paths ex_world (coll ex_synced) = {''/p/gone.txt''}"
  by (simp add: ex_synced_def ex_docs_def orphan_paths_Cons isfile_def ex_world_def)

lemma ex_cleanup_run: "cleanup ex_world ex_synced = (None, ex_cleaned)"
  by (simp add: cleanup_def Let_def issue_def ex_synced_def ex_docs_def isfile_def ex_world_def
        path_in_def ex_cleaned_def)

text \<open>
  C10. A stored record whose \<open>path\<close> is not a string survives the cleanup whatever its
  outcome, is matched by no bulk delete the cleanup issues, and does not contribute to the
  orphan set: the set, and with it \<open>removed\<close>, is what it would be without the record.
\<close>

theorem non_string_path_untouched:
  assumes "cleanup w g = (x, g')" and "r \<in> set (coll g)" and "metadata r = Some md"
    and "map_of md ''path'' = Some v" and "\<forall>p. v \<noteq> PStr p"
  shows "r \<in> set (coll g')
     \<and> (\<forall>S. (By_main, Delete_in S) \<in> set (drop (length (calls g)) (calls g'))
            \<longrightarrow> \<not> path_in S r \<and> S = orphan_paths w (coll g))
     \<and> orphan_paths w (coll g) = orphan_paths w (removeAll r (coll g))
     \<and> (x = None \<longrightarrow> removed (counters g') = int (card (orphan_paths w (removeAll r (coll g)))))"
proof -
  have np: "\<not> path_in S r" for S
    using assms(3-5) by (cases v) (simp_all add: path_in_def)
  have nh: "\<not> has_path p r" for p
    using assms(3-5) by (simp add: has_path_def)
  note a = cleanup_any[OF assms(1)]
  have 1: "r \<in> set (coll g')" using a assms(2) np by auto
  have 2: "\<forall>S. (By_main, Delete_in S) \<in> set (drop (length (calls g)) (calls g'))
            \<longrightarrow> \<not> path_in S r \<and> S = orphan_paths w (coll g)"
    using a np by auto
  have 3: "orphan_paths w (coll g) = orphan_paths w (removeAll r (coll g))"
    using nh by (auto simp: orphan_paths_def)
  have 4: "x = None \<longrightarrow> removed (counters g') = int (card (orphan_paths w (removeAll r (coll g))))"
  proof
    assume "x = None"
    with assms(1) have "cleanup w g = (None, g')" by simp
    from cleanup_ok[OF this] assms(2) 3 show
      "removed (counters g') = int (card (orphan_paths w (removeAll r (coll g))))"
      by (cases "coll g = []") auto
  qed
  from 1 2 3 4 show ?thesis by blast
qed

theorem non_string_path_untouched_witness:
  "\<lparr>rid = ''num'', document = ''z'', metadata = Some [(''path'', PInt 7)]\<rparr> \<in> set (coll ex_cleaned)
   \<and> removed (counters ex_cleaned)
       = int (card (orphan_paths ex_world
           (removeAll \<lparr>rid = ''num'', document = ''z'', metadata = Some [(''path'', PInt 7)]\<rparr>
              (coll ex_synced))))"
proof -
  have 1: "\<lparr>rid = ''num'', document = ''z'', metadata = Some [(''path'', PInt 7)]\<rparr>
             \<in> set (coll ex_synced)"
    by (simp add: ex_synced_def ex_docs_def)
  have 2: "metadata \<lparr>rid = ''num'', document = ''z'', metadata = Some [(''path'', PInt 7)]\<rparr>
             = Some [(''path'', PInt 7)]" by simp
  have 3: "map_of [(''path'', PInt 7)] ''path'' = Some (PInt 7)" by simp
  have 4: "\<forall>p. PInt 7 \<noteq> PStr p" by simp
  from non_string_path_untouched [OF ex_cleanup_run 1 2 3 4] show ?thesis by blast
qed

subsection \<open>Cancellation\<close>

lemma run_pool_append:
  "run_pool w cfg m es g = (Pending, g1) \<Longrightarrow>
     run_pool w cfg m (es @ es') g = run_pool w cfg m es' g1"
proof (induction es arbitrary: g)
  case Nil
  then show ?case by simp
next
  case (Cons e es)
  show ?case
  proof (cases e)
    case (Task i)
    with Cons show ?thesis by simp
  next
    case Main
    with Cons.prems have p: "fst (main_step g) = Pending"
      by (auto split: prod.splits pool_result.splits)
    with Cons.prems Main have "run_pool w cfg m es (snd (main_step g)) = (Pending, g1)"
      by (auto split: prod.splits pool_result.splits)
    from Cons.IH[OF this] p Main show ?thesis
      by (auto split: prod.splits pool_result.splits)
  next
    case Cancel
    with Cons.prems show ?thesis by simp
  qed
qed

lemma task_step_calls_by_task:
  "\<forall>c \<in> set (calls g). fst c \<noteq> By_main \<Longrightarrow>
     \<forall>c \<in> set (calls (task_step w cfg m i g)). fst c \<noteq> By_main"
  by (cases rule: task_step_cases[of w cfg m i g]) auto

lemma run_pool_calls_by_task:
  assumes "run_pool w cfg m es g = (r, g')" and "\<forall>c \<in> set (calls g). fst c \<noteq> By_main"
  shows "\<forall>c \<in> set (calls g'). fst c \<noteq> By_main"
  by (rule run_pool_invariant[OF assms(1), where P = "\<lambda>h. \<forall>c \<in> set (calls h). fst c \<noteq> By_main"])
     (simp_all add: assms(2) task_step_calls_by_task)

lemma run_pool_out:
  assumes "run_pool w cfg m es g = (r, g')"
  shows "out g' = out g"
  by (rule run_pool_invariant[OF assms, where P = "\<lambda>h. out h = out g"]) simp_all

lemma verify_ef_msgs:
  "verify_ef md cfg = Inr (b, msgs) \<Longrightarrow>
     \<forall>s. Stdout_json s \<notin> set msgs \<and> Stdout_table s \<notin> set msgs"
  by (auto simp: verify_ef_def Let_def split: option.splits if_splits)

lemma vectorise_ok:
  "make_or_get_collection w cfg remote = Inr c \<Longrightarrow>
   verify_ef (c_metadata c) cfg = Inr (True, msgs) \<Longrightarrow>
   vectorise w cfg es remote
     = finish_pass w cfg (sync_tasks w cfg es (init_state (c_docs c) (select_files w cfg) msgs))"
  by (simp add: vectorise_def)

lemma ex_select: "select_files ex_world ex_config = [''/p/a.txt'']"
  by (simp add: select_files_def gitignore_path_def ex_world_def ex_config_def)

lemma ex_setup:
  "make_or_get_collection ex_world ex_config (Some ex_remote) = Inr ex_remote"
  "verify_ef (c_metadata ex_remote) ex_config = Inr (True, [Stderr_ep_warning (PStr ''device=cpu'')])"
  by (simp_all add: make_or_get_collection_def verify_ef_def ex_remote_def ex_remote_md_def
        ex_world_def ex_config_def)

lemma ex_running:
  "vectorise ex_world ex_config [Task 0, Main, Task 0] (Some ex_remote) = (Running, ex_in_flight)"
  unfolding vectorise_ok[OF ex_setup] ex_select
  by (simp add: ex_remote_def sync_tasks_def finish_pass_def init_state_def step_defs main_step_def
        ex_world_def ex_docs_def has_path_def ex_in_flight_def)

text \<open>
  C7. If the schedule has left the pass with tasks in flight (the result so far is
  \<open>Running\<close>) and a cancellation is delivered next, the pass returns 1 whatever would have
  followed, the state is the one at the cancellation with the abort message appended to
  the output; no call was issued by the main coroutine (there is no orphan
  reconciliation) and the output holds no stats record, neither as JSON nor as a table.
\<close>

theorem cancellation_aborts:
  assumes "vectorise w cfg es remote = (Running, g)"
  shows "vectorise w cfg (es @ Cancel # es') remote = (Return 1, g\<lparr>out := out g @ [Stderr_abort]\<rparr>)
     \<and> (\<forall>c \<in> set (calls g). fst c \<noteq> By_main)
     \<and> (\<forall>s. Stdout_json s \<notin> set (out g @ [Stderr_abort])
            \<and> Stdout_table s \<notin> set (out g @ [Stderr_abort]))"
proof -
  from assms obtain c where c: "make_or_get_collection w cfg remote = Inr c"
    by (auto simp: vectorise_def split: sum.splits if_splits)
  from assms c obtain msgs where v: "verify_ef (c_metadata c) cfg = Inr (True, msgs)"
    by (auto simp: vectorise_def split: sum.splits prod.splits bool.splits)
  define g0 where "g0 = init_state (c_docs c) (select_files w cfg) msgs"
  from assms c v have f: "finish_pass w cfg (sync_tasks w cfg es g0) = (Running, g)"
    by (simp add: vectorise_def g0_def)
  then have s: "sync_tasks w cfg es g0 = (Pending, g)"
    by (auto simp: finish_pass_def split: prod.splits pool_result.splits option.splits)
  then have ne: "tasks g0 \<noteq> []" and rp: "run_pool w cfg (max_batch_size w) es g0 = (Pending, g)"
    by (auto simp: sync_tasks_def split: if_splits)
  from run_pool_append[OF rp, of "Cancel # es'"] ne
  have "sync_tasks w cfg (es @ Cancel # es') g0 = (Cancelled, g)"
    by (simp add: sync_tasks_def)
  then have 1: "vectorise w cfg (es @ Cancel # es') remote
      = (Return 1, g\<lparr>out := out g @ [Stderr_abort]\<rparr>)"
    using c v by (simp add: vectorise_def g0_def finish_pass_def)
  have "\<forall>c \<in> set (calls g0). fst c \<noteq> By_main" by (simp add: g0_def init_state_def)
  with rp have 2: "\<forall>c \<in> set (calls g). fst c \<noteq> By_main" by (rule run_pool_calls_by_task)
  from run_pool_out[OF rp] have "out g = msgs" by (simp add: g0_def init_state_def)
  with verify_ef_msgs[OF v]
  have 3: "\<forall>s. Stdout_json s \<notin> set (out g @ [Stderr_abort])
            \<and> Stdout_table s \<notin> set (out g @ [Stderr_abort])" by simp
  from 1 2 3 show ?thesis by blast
qed

theorem cancellation_aborts_witness:
  "vectorise ex_world ex_config [Task 0, Main, Task 0, Cancel, Task 0] (Some ex_remote)
     = (Return 1, ex_in_flight\<lparr>out := [Stderr_ep_warning (PStr ''device=cpu''), Stderr_abort]\<rparr>)"
  using cancellation_aborts [OF ex_running, of "[Task 0]"] by (simp add: ex_in_flight_def)

subsection \<open>The counters stay within their bounds\<close>

lemma length_filter_update:
  "i < length xs \<Longrightarrow>
     length (filter P (xs[i := y])) + (if P (xs ! i) then 1 else 0)
       = length (filter P xs) + (if P y then 1 else 0)"
proof (induction xs arbitrary: i)
  case Nil
  then show ?case by simp
next
  case (Cons x xs)
  then show ?case by (cases i) auto
qed

lemma decided_bound_update:
  assumes "decided_bound g" and "i < length (tasks g)"
    and "tasks g' = (tasks g)[i := (f, q)]"
    and "decided (snd (tasks g ! i)) \<longrightarrow> decided q"
    and "add (counters g') + update (counters g')
           \<le> add (counters g) + update (counters g)
              + (if \<not> decided (snd (tasks g ! i)) \<and> decided q then 1 else 0)"
  shows "decided_bound g'"
proof -
  from length_filter_update[OF assms(2), of "\<lambda>t. decided (snd t)" "(f, q)"] assms(4)
  have "int (length (filter (\<lambda>t. decided (snd t)) (tasks g')))
      = int (length (filter (\<lambda>t. decided (snd t)) (tasks g)))
        + (if \<not> decided (snd (tasks g ! i)) \<and> decided q then 1 else 0)"
    unfolding assms(3) by (auto split: if_splits)
  with assms(1,5) show ?thesis by (simp add: decided_bound_def)
qed

lemma task_step_decided_bound:
  assumes "decided_bound g"
  shows "decided_bound (task_step w cfg m i g)"
proof (cases rule: task_step_cases[of w cfg m i g])
  case idle
  with assms show ?thesis by simp
next
  case query_fail
  then show ?thesis by - (rule decided_bound_update[OF assms], simp+)
next
  case query_ok
  then show ?thesis by - (rule decided_bound_update[OF assms], simp+)
next
  case (delete_fail n)
  then show ?thesis by - (rule decided_bound_update[OF assms], simp+)
next
  case (delete_ok n)
  then show ?thesis by - (rule decided_bound_update[OF assms], simp+)
next
  case bump_add
  then show ?thesis by - (rule decided_bound_update[OF assms], simp+)
next
  case bump_update
  then show ?thesis by - (rule decided_bound_update[OF assms], simp+)
next
  case (read_fail e)
  then show ?thesis by - (rule decided_bound_update[OF assms], simp+)
next
  case (read_ok content)
  then show ?thesis by - (rule decided_bound_update[OF assms], simp+)
next
  case (add_zero chunks idx)
  then show ?thesis by - (rule decided_bound_update[OF assms], simp+)
next
  case (add_done chunks idx)
  then show ?thesis by - (rule decided_bound_update[OF assms], simp+)
next
  case (add_fail chunks idx)
  then show ?thesis by - (rule decided_bound_update[OF assms], simp+)
next
  case (add_ok chunks idx)
  then show ?thesis by - (rule decided_bound_update[OF assms], simp+)
qed

lemma decided_le_run:
  "length (filter (\<lambda>t. decided (snd t)) ts) \<le> length (filter (\<lambda>t. has_run (snd t)) ts)"
proof (induction ts)
  case Nil
  then show ?case by simp
next
  case (Cons t ts)
  then show ?case by (cases "snd t") auto
qed

lemma run_pool_decided_bound:
  assumes "run_pool w cfg m es g = (r, g')" and "decided_bound g"
  shows "decided_bound g'"
  by (rule run_pool_invariant[OF assms(1), where P = decided_bound])
     (simp_all add: assms(2) task_step_decided_bound, simp add: decided_bound_def)

lemma run_pool_length:
  assumes "run_pool w cfg m es g = (r, g')"
  shows "length (tasks g') = length (tasks g)"
  by (rule run_pool_invariant[OF assms, where P = "\<lambda>h. length (tasks h) = length (tasks g)"])
     simp_all

lemma finite_stored_paths [simp]: "finite (stored_paths docs)"
proof -
  have "stored_paths docs \<subseteq>
      (\<lambda>r. case metadata r of Some md \<Rightarrow> (case map_of md ''path'' of Some v \<Rightarrow> v | None \<Rightarrow> PInt 0)
            | None \<Rightarrow> PInt 0) ` set docs"
    by (force simp: stored_paths_def image_iff)
  then show ?thesis by (rule finite_subset) simp
qed

lemma card_orphans_le_stored: "card (orphan_paths w docs) \<le> card (stored_paths docs)"
proof -
  have "PStr ` orphan_paths w docs \<subseteq> stored_paths docs"
    by (auto simp: orphan_paths_def stored_paths_def has_path_def split: option.splits)
  then have "card (PStr ` orphan_paths w docs) \<le> card (stored_paths docs)"
    by (rule card_mono[OF finite_stored_paths])
  moreover have "card (PStr ` orphan_paths w docs) = card (orphan_paths w docs)"
    by (rule card_image) (simp add: inj_on_def)
  ultimately show ?thesis by simp
qed

lemma cleanup_counters:
  assumes "cleanup w g = (x, g')"
  shows "add (counters g') = add (counters g) \<and> update (counters g') = update (counters g)
     \<and> (removed (counters g') = removed (counters g)
        \<or> removed (counters g') = int (card (orphan_paths w (coll g))))"
proof (cases "collect_orphanes w (map metadata (coll g)) {}")
  case (Inl e)
  with assms show ?thesis
    by (auto simp: cleanup_def Let_def issue_def split: outcome.splits if_splits)
next
  case (Inr S)
  then have SO: "S = orphan_paths w (coll g)"
    by (auto dest: collect_orphanes_Inr)
  show ?thesis
    using assms Inr unfolding SO[symmetric]
    by (auto simp: cleanup_def Let_def issue_def split: outcome.splits if_splits)
qed

lemma ex_finish:
  "finish_pass ex_world ex_config (AllDone, ex_synced) = (Return 0, show_stats ex_config ex_cleaned)"
  by (simp add: finish_pass_def ex_cleanup_run)

text \<open>
  C8. In every state a schedule can reach from the start of the pass, \<open>add + update\<close> is at
  most the number of tasks that have run so far, which is at most the number of selected
  files, and \<open>removed\<close> is still 0; whatever ends the pass (cleanup included) leaves
  \<open>add\<close> and \<open>update\<close> as they are and \<open>removed\<close> at most the number of distinct paths
  stored in the collection before the cleanup.
\<close>

theorem counters_invariant:
  assumes "sync_tasks w cfg es (init_state docs sel msgs) = (r, g)"
    and "finish_pass w cfg (r, g) = (res, g')"
  shows "add (counters g) + update (counters g) \<le> int (tasks_run g)
     \<and> tasks_run g \<le> length sel
     \<and> removed (counters g) = 0
     \<and> add (counters g') = add (counters g) \<and> update (counters g') = update (counters g)
     \<and> 0 \<le> removed (counters g')
     \<and> removed (counters g') \<le> int (card (stored_paths (coll g)))"
proof -
  define g0 where "g0 = init_state docs sel msgs"
  have d0: "decided_bound g0" by (simp add: g0_def decided_bound_def init_state_def)
  have "decided_bound g \<and> length (tasks g) = length (tasks g0)"
  proof (cases "tasks g0 = []")
    case True
    with assms(1) d0 show ?thesis by (simp add: sync_tasks_def g0_def)
  next
    case False
    with assms(1) have "run_pool w cfg (max_batch_size w) es g0 = (r, g)"
      by (simp add: sync_tasks_def g0_def)
    with d0 show ?thesis by (auto dest: run_pool_decided_bound run_pool_length)
  qed
  then have db: "decided_bound g" and len: "length (tasks g) = length sel"
    by (simp_all add: g0_def init_state_def)
  from db decided_le_run[of "tasks g"]
  have 1: "add (counters g) + update (counters g) \<le> int (tasks_run g)"
    by (simp add: decided_bound_def tasks_run_def)
  have 2: "tasks_run g \<le> length sel"
    unfolding tasks_run_def len[symmetric] by (rule length_filter_le)
  from sync_tasks_removed[OF assms(1)] have 3: "removed (counters g) = 0"
    by (simp add: init_state_def)
  have 4: "add (counters g') = add (counters g) \<and> update (counters g') = update (counters g)
     \<and> 0 \<le> removed (counters g')
     \<and> removed (counters g') \<le> int (card (stored_paths (coll g)))"
  proof (cases r)
    case AllDone
    obtain x h where c: "cleanup w g = (x, h)" by (cases "cleanup w g")
    with assms(2) AllDone have "counters g' = counters h"
      by (auto simp: finish_pass_def show_stats_def split: option.splits)
    with cleanup_counters[OF c] 3 card_orphans_le_stored[of w "coll g"]
    show ?thesis by auto
  qed (use assms(2) 3 in \<open>auto simp: finish_pass_def\<close>)
  from 1 2 3 4 show ?thesis by blast
qed

theorem counters_invariant_witness:
  "add (counters ex_synced) + update (counters ex_synced) \<le> int (tasks_run ex_synced)
   \<and> tasks_run ex_synced \<le> length [''/p/a.txt'']
   \<and> removed (counters (show_stats ex_config ex_cleaned))
        \<le> int (card (stored_paths (coll ex_synced)))
   \<and> counters (show_stats ex_config ex_cleaned) = \<lparr>add = 1, update = 0, removed = 1\<rparr>"
proof -
  have "counters (show_stats ex_config ex_cleaned) = \<lparr>add = 1, update = 0, removed = 1\<rparr>"
    by (simp add: show_stats_def ex_cleaned_def)
  with counters_invariant [OF ex_sync_run ex_finish] show ?thesis by simp
qed

subsection \<open>Batched upload\<close>

lemma own_calls_simps [simp]:
  "own_calls who [] = []"
  "own_calls who (cs @ ds) = own_calls who cs @ own_calls who ds"
  "own_calls who ((c, x) # cs) = (if c = who then x # own_calls who cs else own_calls who cs)"
  by (simp_all add: own_calls_def)

lemma add_docs_append [simp]: "add_docs (xs @ ys) = add_docs xs @ add_docs ys"
proof (induction xs)
  case Nil
  then show ?case by simp
next
  case (Cons c cs)
  then show ?case by (cases c) simp_all
qed

lemma new_records_maps [simp]:
  "map document (new_records w k p ins) = ins"
  "length (new_records w k p ins) = length ins"
  "map metadata (new_records w k p ins) = map (\<lambda>_. Some [(''path'', PStr p)]) ins"
  by (simp_all add: new_records_def comp_def map_nth map_replicate_const)

lemma own_calls_other:
  "j \<noteq> i \<Longrightarrow> own_calls (By_task i) (calls (task_step w cfg m j g))
     = own_calls (By_task i) (calls g)"
  by (cases rule: task_step_cases[of w cfg m j g]) simp_all

lemma batch_inv_other:
  assumes "j \<noteq> i" and "batch_inv w cfg g i"
  shows "batch_inv w cfg (task_step w cfg m j g) i"
  using assms(2) task_step_other[of i j w cfg m g] assms(1)
  by (simp add: batch_inv_def own_calls_other)

lemma take_more: "concat B = take idx C \<Longrightarrow>
    concat (B @ [take n (drop idx C)]) = take (idx + n) C"
  by (simp add: take_add)

lemma batch_inv_own:
  assumes "0 < m" and "batch_inv w cfg g i"
  shows "batch_inv w cfg (task_step w cfg m i g) i"
proof (cases rule: task_step_cases[of w cfg m i g])
  case idle
  with assms show ?thesis by simp
next
  case query_fail
  with assms(2) show ?thesis by (simp add: batch_inv_def Let_def)
next
  case query_ok
  with assms(2) show ?thesis by (simp add: batch_inv_def Let_def)
next
  case (delete_fail n)
  with assms(2) show ?thesis by (simp add: batch_inv_def Let_def)
next
  case (delete_ok n)
  with assms(2) show ?thesis by (simp add: batch_inv_def Let_def)
next
  case bump_add
  with assms(2) show ?thesis by (simp add: batch_inv_def Let_def)
next
  case bump_update
  with assms(2) show ?thesis by (simp add: batch_inv_def Let_def)
next
  case (read_fail e)
  with assms(2) show ?thesis by (simp add: batch_inv_def Let_def)
next
  case (read_ok content)
  with assms(2) show ?thesis by (simp add: batch_inv_def Let_def file_chunks_def)
next
  case (add_zero chunks idx)
  with assms(1) show ?thesis by simp
next
  case (add_done chunks idx)
  with assms show ?thesis by (simp add: batch_inv_def Let_def)
next
  case (add_fail chunks idx)
  with assms(2) have "concat (add_docs (own_calls (By_task i) (calls g))
       @ [take (nat m) (drop idx (file_chunks w cfg (fst (tasks g ! i))))])
     = take (idx + nat m) (file_chunks w cfg (fst (tasks g ! i)))"
    by (intro take_more) (simp add: batch_inv_def Let_def)
  with add_fail assms(2) show ?thesis
    by (auto simp: batch_inv_def Let_def)
next
  case (add_ok chunks idx)
  with assms(2) have "concat (add_docs (own_calls (By_task i) (calls g))
       @ [take (nat m) (drop idx (file_chunks w cfg (fst (tasks g ! i))))])
     = take (idx + nat m) (file_chunks w cfg (fst (tasks g ! i)))"
    by (intro take_more) (simp add: batch_inv_def Let_def)
  with add_ok assms(2) show ?thesis
    by (auto simp: batch_inv_def Let_def)
qed

lemma task_step_calls_ok:
  assumes "\<forall>c \<in> set (calls g). call_ok m (snd c)"
  shows "\<forall>c \<in> set (calls (task_step w cfg m i g)). call_ok m (snd c)"
  using assms by (cases rule: task_step_cases[of w cfg m i g]) auto

lemma run_pool_batches:
  assumes "run_pool w cfg m es g = (r, g')" and "0 < m"
    and "\<forall>i < length (tasks g). batch_inv w cfg g i"
    and "\<forall>c \<in> set (calls g). call_ok m (snd c)"
  shows "(\<forall>i < length (tasks g'). batch_inv w cfg g' i)
     \<and> (\<forall>c \<in> set (calls g'). call_ok m (snd c))"
proof (rule run_pool_invariant[OF assms(1), where
    P = "\<lambda>h. (\<forall>i < length (tasks h). batch_inv w cfg h i)
               \<and> (\<forall>c \<in> set (calls h). call_ok m (snd c))"])
  show "(\<forall>i < length (tasks g). batch_inv w cfg g i)
     \<and> (\<forall>c \<in> set (calls g). call_ok m (snd c))"
    using assms(3,4) by simp
next
  fix h j
  assume h: "(\<forall>i < length (tasks h). batch_inv w cfg h i)
     \<and> (\<forall>c \<in> set (calls h). call_ok m (snd c))"
  have "batch_inv w cfg (task_step w cfg m j h) i" if "i < length (tasks h)" for i
    using h that assms(2) by (cases "j = i") (auto intro: batch_inv_own batch_inv_other)
  moreover from h have "\<forall>c \<in> set (calls (task_step w cfg m j h)). call_ok m (snd c)"
    by (intro task_step_calls_ok) simp
  ultimately show "(\<forall>i < length (tasks (task_step w cfg m j h)). batch_inv w cfg (task_step w cfg m j h) i)
     \<and> (\<forall>c \<in> set (calls (task_step w cfg m j h)). call_ok m (snd c))"
    by simp
next
  fix h
  assume "(\<forall>i < length (tasks h). batch_inv w cfg h i)
     \<and> (\<forall>c \<in> set (calls h). call_ok m (snd c))"
  then show "(\<forall>i < length (tasks (snd (main_step h))). batch_inv w cfg (snd (main_step h)) i)
     \<and> (\<forall>c \<in> set (calls (snd (main_step h))). call_ok m (snd c))"
    by (simp add: batch_inv_def Let_def)
qed

lemma run_pool_fst:
  assumes "run_pool w cfg m es g = (r, g')"
  shows "fst (tasks g' ! i) = fst (tasks g ! i)"
  by (rule run_pool_invariant[OF assms, where P = "\<lambda>h. fst (tasks h ! i) = fst (tasks g ! i)"])
     simp_all

lemma add_docs_ok:
  "\<forall>c \<in> set cs. call_ok m (snd c) \<Longrightarrow>
     \<forall>b \<in> set (add_docs (own_calls who cs)). b \<noteq> [] \<and> int (length b) \<le> m"
proof (induction cs)
  case Nil
  then show ?case by simp
next
  case (Cons c cs)
  obtain a x where c: "c = (a, x)" by (cases c)
  from Cons show ?case unfolding c by (cases x) auto
qed

lemma batch_inv_prefix:
  assumes "batch_inv w cfg g i"
  shows "\<exists>k. concat (add_docs (own_calls (By_task i) (calls g)))
           = take k (file_chunks w cfg (fst (tasks g ! i)))"
proof (cases "snd (tasks g ! i)")
  case Finished
  with assms have "concat (add_docs (own_calls (By_task i) (calls g)))
      = take (length (file_chunks w cfg (fst (tasks g ! i)))) (file_chunks w cfg (fst (tasks g ! i)))"
    by (simp add: batch_inv_def Let_def)
  then show ?thesis by blast
next
  case (Adding chunks idx)
  with assms show ?thesis by (auto simp: batch_inv_def Let_def)
next
  case (Raised e)
  with assms show ?thesis by (auto simp: batch_inv_def Let_def)
qed (use assms in \<open>auto simp: batch_inv_def Let_def intro: exI[of _ 0]\<close>)

lemma ex_sync_run1:
  "sync_tasks ex_world1 ex_config ex_sched1 (init_state ex_docs [''/p/a.txt''] [])
     = (AllDone, ex_synced1)"
  by (simp add: sync_tasks_def ex_sched1_def init_state_def step_defs read_chunks_def main_step_def ex_world_def
        ex_world1_def ex_docs_def has_path_def new_records_def ex_synced_def ex_synced1_def
        ex_config_def)

subsection \<open>What a pass leaves in the collection\<close>

lemma run_pool_settled:
  assumes "run_pool w cfg m es g = (r, g')" and "P g"
    and "\<And>g i. P g \<Longrightarrow> P (task_step w cfg m i g)"
    and "\<And>g g1. P g \<Longrightarrow> main_step g = (Pending, g1) \<Longrightarrow> P g1"
  shows "if r = Pending \<or> r = Cancelled then P g'
         else \<exists>g1. P g1 \<and> main_step g1 = (r, g')"
  using assms(1,2)
proof (induction es arbitrary: g)
  case Nil
  then show ?case by simp
next
  case (Cons e es)
  show ?case
  proof (cases e)
    case (Task i)
    with Cons.prems have "run_pool w cfg m es (task_step w cfg m i g) = (r, g')" by simp
    moreover have "P (task_step w cfg m i g)" using Cons.prems(2) by (rule assms(3))
    ultimately show ?thesis by (rule Cons.IH)
  next
    case Main
    obtain r1 g1 where ms: "main_step g = (r1, g1)" by (cases "main_step g")
    show ?thesis
    proof (cases "r1 = Pending")
      case True
      with Cons.prems Main ms have "run_pool w cfg m es g1 = (r, g')" by simp
      moreover from Cons.prems(2) ms True have "P g1" by (auto intro: assms(4))
      ultimately show ?thesis by (rule Cons.IH)
    next
      case False
      with Cons.prems Main ms have eq: "r = r1" "g' = g1"
        by (auto split: pool_result.splits)
      have np: "r1 \<noteq> Cancelled"
        using ms by (auto simp: main_step_def split: prod.splits option.splits if_splits)
      from False np eq ms Cons.prems(2) show ?thesis by auto
    qed
  next
    case Cancel
    with Cons.prems show ?thesis by simp
  qed
qed

lemma queue_inv_update:
  assumes "queue_inv g" and "i < length (tasks g)" and "\<not> completed (snd (tasks g ! i))"
    and "tasks g' = (tasks g)[i := (f, q)]" and "bar g' = bar g"
    and "if completed q then queue g' = queue g @ [i] else queue g' = queue g"
  shows "queue_inv g'"
proof -
  from assms(1,3) have ni: "i \<notin> set (queue g)" by (auto simp: queue_inv_def)
  have cnt: "length (filter (\<lambda>t. completed (snd t)) (tasks g'))
      = length (filter (\<lambda>t. completed (snd t)) (tasks g)) + (if completed q then 1 else 0)"
    using length_filter_update[OF assms(2), of "\<lambda>t. completed (snd t)" "(f, q)"] assms(3)
    unfolding assms(4) by simp
  have rc: "raised q \<Longrightarrow> completed q" by (cases q) simp_all
  show ?thesis
  proof (cases "completed q")
    case True
    with assms(6) have q: "queue g' = queue g @ [i]" by simp
    show ?thesis
      unfolding queue_inv_def q assms(4,5)
      using assms(1,2) ni cnt True
      by (auto simp: queue_inv_def nth_list_update assms(4))
  next
    case False
    with assms(6) have q: "queue g' = queue g" by simp
    show ?thesis
      unfolding queue_inv_def q assms(4,5)
      using assms(1,2) ni cnt False rc
      by (auto simp: queue_inv_def nth_list_update assms(4))
  qed
qed

lemma task_step_queue_inv:
  assumes "queue_inv g"
  shows "queue_inv (task_step w cfg m i g)"
proof (cases rule: task_step_cases[of w cfg m i g])
  case idle
  with assms show ?thesis by simp
next
  case query_fail
  then show ?thesis by - (rule queue_inv_update[OF assms], simp+)
next
  case query_ok
  then show ?thesis by - (rule queue_inv_update[OF assms], simp+)
next
  case (delete_fail n)
  then show ?thesis by - (rule queue_inv_update[OF assms], simp+)
next
  case (delete_ok n)
  then show ?thesis by - (rule queue_inv_update[OF assms], simp+)
next
  case bump_add
  then show ?thesis by - (rule queue_inv_update[OF assms], simp+)
next
  case bump_update
  then show ?thesis by - (rule queue_inv_update[OF assms], simp+)
next
  case (read_fail e)
  then show ?thesis by - (rule queue_inv_update[OF assms], simp+)
next
  case (read_ok content)
  then show ?thesis by - (rule queue_inv_update[OF assms], simp+)
next
  case (add_zero chunks idx)
  then show ?thesis by - (rule queue_inv_update[OF assms], simp+)
next
  case (add_done chunks idx)
  then show ?thesis by - (rule queue_inv_update[OF assms], simp+)
next
  case (add_fail chunks idx)
  then show ?thesis by - (rule queue_inv_update[OF assms], simp+)
next
  case (add_ok chunks idx)
  then show ?thesis by - (rule queue_inv_update[OF assms], simp+)
qed

lemma drain_None:
  "drain ts q b = (None, q', b') \<Longrightarrow>
     q' = [] \<and> b' = b + length q \<and> (\<forall>i \<in> set q. \<not> raised (snd (ts ! i)))"
proof (induction q arbitrary: b)
  case Nil
  then show ?case by simp
next
  case (Cons i q)
  from Cons.IH[of "Suc b"] Cons.prems show ?case by (cases "snd (ts ! i)") auto
qed

lemma main_step_not_crashed:
  assumes "main_step g = (r, g1)" and "r = Pending \<or> r = AllDone"
  shows "queue g1 = [] \<and> bar g1 = bar g + length (queue g) \<and> tasks g1 = tasks g
     \<and> (\<forall>i \<in> set (queue g). \<not> raised (snd (tasks g ! i)))
     \<and> (r = AllDone \<longleftrightarrow> bar g1 = length (tasks g))"
  using assms
  by (auto simp: main_step_def split: prod.splits option.splits if_splits dest!: drain_None)

lemma main_step_queue_inv:
  assumes "queue_inv g" and "main_step g = (r, g1)" and "r = Pending \<or> r = AllDone"
  shows "queue_inv g1 \<and> (\<forall>t \<in> set (tasks g1). \<not> raised (snd t))"
proof -
  note m = main_step_not_crashed[OF assms(2,3)]
  have nr: "\<forall>i < length (tasks g). \<not> raised (snd (tasks g ! i))"
  proof (intro allI impI notI)
    fix i assume "i < length (tasks g)" and r: "raised (snd (tasks g ! i))"
    with assms(1) have "i \<in> set (queue g)" by (simp add: queue_inv_def)
    with m r show False by simp
  qed
  have "\<forall>t \<in> set (tasks g1). \<not> raised (snd t)"
  proof
    fix t assume "t \<in> set (tasks g1)"
    with m obtain i where "i < length (tasks g)" "tasks g ! i = t"
      by (auto simp: in_set_conv_nth)
    with nr show "\<not> raised (snd t)" by auto
  qed
  moreover have "queue_inv g1"
    using assms(1) m nr by (simp add: queue_inv_def)
  ultimately show ?thesis by simp
qed

lemma all_done_finished:
  assumes "queue_inv g" and "main_step g = (AllDone, g1)"
  shows "\<forall>t \<in> set (tasks g1). snd t = Finished"
proof -
  from main_step_queue_inv[OF assms(1,2)] have qi: "queue_inv g1"
    and nr: "\<forall>t \<in> set (tasks g1). \<not> raised (snd t)" by simp_all
  from main_step_not_crashed[OF assms(2)] have "queue g1 = []" "bar g1 = length (tasks g1)"
    by simp_all
  with qi have "length (filter (\<lambda>t. completed (snd t)) (tasks g1)) = length (tasks g1)"
    by (simp add: queue_inv_def)
  then have "\<forall>t \<in> set (tasks g1). completed (snd t)"
    by (metis (mono_tags, lifting) filter_id_conv length_filter_less less_irrefl linorder_neqE_nat length_filter_le le_antisym nat_less_le)
  with nr show ?thesis
  proof (intro ballI)
    fix t assume "t \<in> set (tasks g1)"
    with \<open>\<forall>t \<in> set (tasks g1). completed (snd t)\<close> nr
    have "completed (snd t)" "\<not> raised (snd t)" by simp_all
    then show "snd t = Finished" by (cases "snd t") simp_all
  qed
qed

lemma has_path_unique: "has_path p r \<Longrightarrow> has_path q r \<Longrightarrow> p = q"
  by (auto simp: has_path_def split: option.splits)

lemma has_path_new_records [simp]:
  "r \<in> set (new_records w k p ins) \<Longrightarrow> has_path q r \<longleftrightarrow> q = p"
  by (auto simp: new_records_def has_path_def)

lemma task_step_frame:
  assumes "\<And>r. Q r \<Longrightarrow> \<not> has_path (expand_path w (fst (tasks g ! j))) r"
  shows "filter Q (coll (task_step w cfg m j g)) = filter Q (coll g)"
proof (cases rule: task_step_cases[of w cfg m j g])
  case (delete_ok n)
  have "filter Q (filter (\<lambda>r. \<not> has_path (expand_path w (fst (tasks g ! j))) r) (coll g))
      = filter Q (coll g)"
    using assms by (auto intro: filter_cong)
  with delete_ok show ?thesis by simp
next
  case (add_ok chunks idx)
  have "\<forall>r \<in> set (new_records w (minted g) (expand_path w (fst (tasks g ! j)))
          (take (nat m) (drop idx chunks))). \<not> Q r"
  proof (intro ballI notI)
    fix r
    assume r: "r \<in> set (new_records w (minted g) (expand_path w (fst (tasks g ! j)))
          (take (nat m) (drop idx chunks)))" and q: "Q r"
    from r have "has_path (expand_path w (fst (tasks g ! j))) r" by simp
    with assms[OF q] show False by simp
  qed
  then have "filter Q (new_records w (minted g) (expand_path w (fst (tasks g ! j)))
          (take (nat m) (drop idx chunks))) = []"
    by (simp add: filter_empty_conv)
  with add_ok show ?thesis by simp
qed simp_all

lemma stored_for_other:
  "p \<noteq> expand_path w (fst (tasks g ! j)) \<Longrightarrow>
     stored_for p (coll (task_step w cfg m j g)) = stored_for p (coll g)"
  unfolding stored_for_def by (rule task_step_frame) (auto dest: has_path_unique)

lemma coll_inv_other:
  assumes "j \<noteq> i" and "coll_inv w cfg docs g i"
    and "expand_path w (fst (tasks g ! i)) \<noteq> expand_path w (fst (tasks g ! j))"
  shows "coll_inv w cfg docs (task_step w cfg m j g) i"
  using assms(2) task_step_other[of i j w cfg m g] assms(1) stored_for_other[OF assms(3)]
  by (simp add: coll_inv_def own_calls_other)

lemma stored_for_new_records [simp]:
  "stored_for p (new_records w k p ins) = new_records w k p ins"
  by (simp add: stored_for_def)

lemma doc_content_new_records [simp]:
  "map doc_content (new_records w k p ins) = chunk_records p ins"
proof -
  have "map doc_content (new_records w k p ins)
      = map (\<lambda>j. (ins ! j, Some [(''path'', PStr p)])) [0..<length ins]"
    by (simp add: new_records_def doc_content_def)
  also have "\<dots> = map (\<lambda>d. (d, Some [(''path'', PStr p)])) (map (\<lambda>j. ins ! j) [0..<length ins])"
    by simp
  also have "\<dots> = chunk_records p ins"
    by (simp only: map_nth chunk_records_def)
  finally show ?thesis .
qed

lemma stored_for_simps [simp]:
  "stored_for p [] = []"
  "stored_for p (xs @ ys) = stored_for p xs @ stored_for p ys"
  "stored_for p (filter (\<lambda>r. \<not> has_path p r) xs) = []"
  by (simp_all add: stored_for_def)

lemma chunk_records_simps [simp]:
  "chunk_records p [] = []"
  "chunk_records p (xs @ ys) = chunk_records p xs @ chunk_records p ys"
  by (simp_all add: chunk_records_def)

lemma coll_inv_own:
  assumes "0 < m" and "coll_inv w cfg docs g i"
  shows "coll_inv w cfg docs (task_step w cfg m i g) i"
proof (cases rule: task_step_cases[of w cfg m i g])
  case idle
  with assms show ?thesis by simp
next
  case query_fail
  then show ?thesis by (simp add: coll_inv_def)
next
  case query_ok
  with assms(2) show ?thesis by (simp add: coll_inv_def Let_def stored_for_def)
next
  case (delete_fail n)
  then show ?thesis by (simp add: coll_inv_def)
next
  case (delete_ok n)
  with assms(2) show ?thesis by (auto simp: coll_inv_def Let_def first_calls_def)
next
  case bump_add
  with assms(2) show ?thesis by (auto simp: coll_inv_def Let_def first_calls_def)
next
  case bump_update
  with assms(2) show ?thesis by (simp add: coll_inv_def Let_def)
next
  case (read_fail e)
  then show ?thesis by (simp add: coll_inv_def)
next
  case (read_ok content)
  with assms(2) show ?thesis
    by (simp add: coll_inv_def Let_def file_chunks_def read_chunks_readable)
next
  case (add_zero chunks idx)
  with assms(1) show ?thesis by simp
next
  case (add_done chunks idx)
  with assms show ?thesis by (auto simp: coll_inv_def Let_def)
next
  case (add_fail chunks idx)
  then show ?thesis by (simp add: coll_inv_def)
next
  case (add_ok chunks idx)
  with assms(2) show ?thesis
    by (auto simp: coll_inv_def Let_def take_add)
qed

lemma counted_as_update:
  assumes "i < length ts"
  shows "counted_as fr w docs (ts[i := (fst (ts ! i), q)])
           + (if bumped (snd (ts ! i)) \<and> (stored_for (expand_path w (fst (ts ! i))) docs = []) = fr
              then 1 else 0)
         = counted_as fr w docs ts
           + (if bumped q \<and> (stored_for (expand_path w (fst (ts ! i))) docs = []) = fr
              then 1 else 0)"
  using length_filter_update[OF assms,
      of "\<lambda>t. bumped (snd t) \<and> (stored_for (expand_path w (fst t)) docs = []) = fr"
         "(fst (ts ! i), q)"]
  by (simp add: counted_as_def)

lemma counters_inv_update:
  assumes "counters_inv w docs g" and "i < length (tasks g)"
    and "tasks g' = (tasks g)[i := (fst (tasks g ! i), q)]"
    and "\<not> raised (snd (tasks g ! i))"
    and "bumped (snd (tasks g ! i)) \<Longrightarrow> bumped q \<or> raised q"
    and "\<not> raised q \<Longrightarrow>
           add (counters g') = add (counters g)
             + (if \<not> bumped (snd (tasks g ! i)) \<and> bumped q
                   \<and> stored_for (expand_path w (fst (tasks g ! i))) docs = [] then 1 else 0)
         \<and> update (counters g') = update (counters g)
             + (if \<not> bumped (snd (tasks g ! i)) \<and> bumped q
                   \<and> stored_for (expand_path w (fst (tasks g ! i))) docs \<noteq> [] then 1 else 0)"
  shows "counters_inv w docs g'"
  unfolding counters_inv_def
proof (intro impI)
  assume nr': "\<forall>t \<in> set (tasks g'). \<not> raised (snd t)"
  have "tasks g' ! i = (fst (tasks g ! i), q)"
    using assms(2,3) by simp
  moreover have "tasks g' ! i \<in> set (tasks g')"
    by (rule nth_mem) (simp add: assms(2,3))
  ultimately have nq: "\<not> raised q" using nr' by (metis snd_conv)
  have nr: "\<forall>t \<in> set (tasks g). \<not> raised (snd t)"
  proof
    fix t assume "t \<in> set (tasks g)"
    then obtain k where k: "k < length (tasks g)" "tasks g ! k = t"
      by (auto simp: in_set_conv_nth)
    show "\<not> raised (snd t)"
    proof (cases "k = i")
      case True
      with k assms(4) show ?thesis by simp
    next
      case False
      with k assms(3) have "tasks g' ! k = t" "k < length (tasks g')" by simp_all
      then have "t \<in> set (tasks g')" by (metis nth_mem)
      with nr' show ?thesis by simp
    qed
  qed
  with assms(1) have old: "add (counters g) = int (counted_as True w docs (tasks g))"
    "update (counters g) = int (counted_as False w docs (tasks g))"
    by (simp_all add: counters_inv_def)
  note u1 = counted_as_update[OF assms(2), of True w docs q]
  note u2 = counted_as_update[OF assms(2), of False w docs q]
  from assms(6)[OF nq] old u1 u2 assms(5) nq
  show "add (counters g') = int (counted_as True w docs (tasks g'))
        \<and> update (counters g') = int (counted_as False w docs (tasks g'))"
    unfolding assms(3) by (auto split: if_splits)
qed

lemma counters_inv_step:
  assumes "counters_inv w docs g" and "i < length (tasks g) \<Longrightarrow> coll_inv w cfg docs g i"
  shows "counters_inv w docs (task_step w cfg m i g)"
proof (cases rule: task_step_cases[of w cfg m i g])
  case idle
  with assms show ?thesis by simp
next
  case query_fail
  then show ?thesis by - (rule counters_inv_update[OF assms(1)], simp+)
next
  case query_ok
  then show ?thesis by - (rule counters_inv_update[OF assms(1)], simp+)
next
  case (delete_fail n)
  then show ?thesis by - (rule counters_inv_update[OF assms(1)], simp+)
next
  case (delete_ok n)
  then show ?thesis by - (rule counters_inv_update[OF assms(1)], simp+)
next
  case bump_add
  with assms(2) have "stored_for (expand_path w (fst (tasks g ! i))) docs = []"
    by (simp add: coll_inv_def Let_def)
  with bump_add show ?thesis by - (rule counters_inv_update[OF assms(1)], simp+)
next
  case bump_update
  with assms(2) have "stored_for (expand_path w (fst (tasks g ! i))) docs \<noteq> []"
    by (simp add: coll_inv_def Let_def)
  with bump_update show ?thesis by - (rule counters_inv_update[OF assms(1)], simp+)
next
  case (read_fail e)
  then show ?thesis by - (rule counters_inv_update[OF assms(1)], simp+)
next
  case (read_ok content)
  then show ?thesis by - (rule counters_inv_update[OF assms(1)], simp+)
next
  case (add_zero chunks idx)
  then show ?thesis by - (rule counters_inv_update[OF assms(1)], simp+)
next
  case (add_done chunks idx)
  then show ?thesis by - (rule counters_inv_update[OF assms(1)], simp+)
next
  case (add_fail chunks idx)
  then show ?thesis by - (rule counters_inv_update[OF assms(1)], simp+)
next
  case (add_ok chunks idx)
  then show ?thesis by - (rule counters_inv_update[OF assms(1)], simp+)
qed

lemma task_step_map_fst [simp]:
  "map fst (tasks (task_step w cfg m i g)) = map fst (tasks g)"
  by (rule nth_equalityI) simp_all

lemma data_inv_step:
  assumes "data_inv w cfg docs sel g" and "distinct (map (expand_path w) sel)" and "0 < m"
  shows "data_inv w cfg docs sel (task_step w cfg m j g)"
proof -
  from assms(1) have sel: "map fst (tasks g) = sel"
    and ci: "\<forall>i < length (tasks g). coll_inv w cfg docs g i"
    and cn: "counters_inv w docs g"
    and un: "filter (untouched w sel) (coll g) = filter (untouched w sel) docs"
    by (simp_all add: data_inv_def)
  have len: "length sel = length (tasks g)" using sel by (metis length_map)
  have nth: "fst (tasks g ! k) = sel ! k" if "k < length (tasks g)" for k
    using sel that by (metis nth_map)
  have 1: "coll_inv w cfg docs (task_step w cfg m j g) i" if i: "i < length (tasks g)" for i
  proof (cases "j = i")
    case True
    with ci i assms(3) show ?thesis by (auto intro: coll_inv_own)
  next
    case ne: False
    show ?thesis
    proof (cases "j < length (tasks g)")
      case False
      then have "task_step w cfg m j g = g" by (simp add: task_step_def)
      with ci i show ?thesis by simp
    next
      case True
      with i ne assms(2) len have "expand_path w (sel ! i) \<noteq> expand_path w (sel ! j)"
        by (simp add: distinct_conv_nth)
      with nth[OF i] nth[OF True]
      have "expand_path w (fst (tasks g ! i)) \<noteq> expand_path w (fst (tasks g ! j))" by simp
      with ne ci i show ?thesis by (auto intro: coll_inv_other)
    qed
  qed
  have 2: "counters_inv w docs (task_step w cfg m j g)"
    using cn ci by (auto intro: counters_inv_step)
  have 3: "filter (untouched w sel) (coll (task_step w cfg m j g))
      = filter (untouched w sel) (coll g)"
  proof (cases "j < length (tasks g)")
    case False
    then have "task_step w cfg m j g = g" by (simp add: task_step_def)
    then show ?thesis by simp
  next
    case True
    then have "sel ! j \<in> set sel" using len by simp
    with nth[OF True] show ?thesis
      by (intro task_step_frame) (auto simp: untouched_def)
  qed
  from 1 2 3 sel un show ?thesis by (simp add: data_inv_def)
qed

lemma data_inv_main:
  assumes "data_inv w cfg docs sel g"
  shows "data_inv w cfg docs sel (snd (main_step g))"
  using assms by (simp add: data_inv_def coll_inv_def counters_inv_def)

lemma data_inv_init:
  "data_inv w cfg docs sel (init_state docs sel msgs)"
  by (simp add: data_inv_def init_state_def coll_inv_def counters_inv_def comp_def
        counted_as_def)

lemma queue_inv_init: "queue_inv (init_state docs sel msgs)"
  by (simp add: queue_inv_def init_state_def comp_def)

lemma run_pool_data_inv:
  assumes "run_pool w cfg m es (init_state docs sel msgs) = (r, g)"
    and "distinct (map (expand_path w) sel)" and "0 < m"
  shows "data_inv w cfg docs sel g"
  by (rule run_pool_invariant[OF assms(1), where P = "data_inv w cfg docs sel"])
     (simp_all add: data_inv_init data_inv_step assms(2,3) data_inv_main)

lemma run_pool_all_done:
  assumes "run_pool w cfg m es (init_state docs sel msgs) = (AllDone, g)"
  shows "\<forall>t \<in> set (tasks g). snd t = Finished"
proof -
  have "if AllDone = Pending \<or> AllDone = Cancelled then queue_inv g
        else \<exists>g1. queue_inv g1 \<and> main_step g1 = (AllDone, g)"
    by (rule run_pool_settled[OF assms, where P = queue_inv])
       (auto simp: queue_inv_init task_step_queue_inv dest: main_step_queue_inv)
  then obtain g1 where "queue_inv g1" "main_step g1 = (AllDone, g)" by auto
  then show ?thesis by (rule all_done_finished)
qed

lemma sync_tasks_data_inv:
  assumes "sync_tasks w cfg es (init_state docs sel msgs) = (r, g)"
    and "distinct (map (expand_path w) sel)" and "1 \<le> max_batch_size w"
  shows "data_inv w cfg docs sel g"
proof (cases "sel = []")
  case True
  with assms(1) have "g = init_state docs sel msgs"
    by (simp add: sync_tasks_def init_state_def)
  then show ?thesis by (simp add: data_inv_init)
next
  case False
  with assms(1) have rp: "run_pool w cfg (max_batch_size w) es (init_state docs sel msgs) = (r, g)"
    by (simp add: sync_tasks_def init_state_def)
  from assms(3) have m: "0 < max_batch_size w" by simp
  show ?thesis by (rule run_pool_data_inv[OF rp assms(2) m])
qed

lemma sync_tasks_all_done:
  assumes "sync_tasks w cfg es (init_state docs sel msgs) = (AllDone, g)"
  shows "\<forall>t \<in> set (tasks g). snd t = Finished"
proof (cases "sel = []")
  case True
  with assms have "g = init_state docs sel msgs"
    by (simp add: sync_tasks_def init_state_def)
  with True show ?thesis by (simp add: init_state_def)
next
  case False
  with assms have "run_pool w cfg (max_batch_size w) es (init_state docs sel msgs) = (AllDone, g)"
    by (simp add: sync_tasks_def init_state_def)
  then show ?thesis by (rule run_pool_all_done)
qed

lemma counted_as_finished:
  assumes "\<forall>t \<in> set ts. snd t = Finished"
  shows "counted_as fr w docs ts
     = length (filter (\<lambda>f. (stored_for (expand_path w f) docs = []) = fr) (map fst ts))"
  using assms by (induction ts) (auto simp: counted_as_def)

lemma tasks_done:
  assumes "sync_tasks w cfg es (init_state docs sel msgs) = (AllDone, g)"
    and "distinct (map (expand_path w) sel)" and "1 \<le> max_batch_size w"
  shows "(\<forall>f \<in> set sel. readable w (expand_path w f)
            \<and> map doc_content (stored_for (expand_path w f) (coll g))
                = chunk_records (expand_path w f) (file_chunks w cfg f))
     \<and> filter (untouched w sel) (coll g) = filter (untouched w sel) docs
     \<and> add (counters g) = int (length (filter (\<lambda>f. stored_for (expand_path w f) docs = []) sel))
     \<and> update (counters g)
         = int (length (filter (\<lambda>f. stored_for (expand_path w f) docs \<noteq> []) sel))
     \<and> removed (counters g) = 0"
proof -
  note di = sync_tasks_data_inv[OF assms]
  note fin = sync_tasks_all_done[OF assms(1)]
  from di have sel: "map fst (tasks g) = sel"
    and ci: "\<forall>i < length (tasks g). coll_inv w cfg docs g i"
    and cn: "counters_inv w docs g"
    and un: "filter (untouched w sel) (coll g) = filter (untouched w sel) docs"
    by (simp_all add: data_inv_def)
  have 1: "\<forall>f \<in> set sel. readable w (expand_path w f)
            \<and> map doc_content (stored_for (expand_path w f) (coll g))
                = chunk_records (expand_path w f) (file_chunks w cfg f)"
  proof
    fix f assume "f \<in> set sel"
    then obtain i where i: "i < length sel" "sel ! i = f" by (auto simp: in_set_conv_nth)
    with sel have il: "i < length (tasks g)" and fi: "fst (tasks g ! i) = f"
      by (metis length_map, metis length_map nth_map)
    from il fin have "snd (tasks g ! i) = Finished" by simp
    with ci il fi show "readable w (expand_path w f)
            \<and> map doc_content (stored_for (expand_path w f) (coll g))
                = chunk_records (expand_path w f) (file_chunks w cfg f)"
      by (auto simp: coll_inv_def Let_def)
  qed
  from fin have nr: "\<forall>t \<in> set (tasks g). \<not> raised (snd t)" by simp
  with cn have "add (counters g) = int (counted_as True w docs (tasks g))"
    "update (counters g) = int (counted_as False w docs (tasks g))"
    by (simp_all add: counters_inv_def)
  then have 2: "add (counters g)
         = int (length (filter (\<lambda>f. stored_for (expand_path w f) docs = []) sel))"
    and 3: "update (counters g)
         = int (length (filter (\<lambda>f. stored_for (expand_path w f) docs \<noteq> []) sel))"
    by (simp_all add: counted_as_finished[OF fin] sel)
  from sync_tasks_removed[OF assms(1)] have 4: "removed (counters g) = 0"
    by (simp add: init_state_def)
  from 1 un 2 3 4 show ?thesis by blast
qed

lemma vectorise_Return0:
  assumes "vectorise w cfg es remote = (Return 0, g)"
  obtains c msgs h h' where "make_or_get_collection w cfg remote = Inr c"
    and "sync_tasks w cfg es (init_state (c_docs c) (select_files w cfg) msgs) = (AllDone, h)"
    and "cleanup w h = (None, h')" and "g = show_stats cfg h'"
proof -
  from assms obtain c where c: "make_or_get_collection w cfg remote = Inr c"
    by (auto simp: vectorise_def split: sum.splits if_splits)
  from assms c obtain msgs where v: "verify_ef (c_metadata c) cfg = Inr (True, msgs)"
    by (auto simp: vectorise_def split: sum.splits prod.splits bool.splits)
  obtain r h where s: "sync_tasks w cfg es (init_state (c_docs c) (select_files w cfg) msgs) = (r, h)"
    by (cases "sync_tasks w cfg es (init_state (c_docs c) (select_files w cfg) msgs)")
  from assms have f: "finish_pass w cfg (r, h) = (Return 0, g)"
    unfolding vectorise_ok[OF c v] s .
  then have r: "r = AllDone"
    by (cases r) (auto simp: finish_pass_def)
  obtain x h' where cl: "cleanup w h = (x, h')" by (cases "cleanup w h")
  with f r have "x = None" "g = show_stats cfg h'"
    by (auto simp: finish_pass_def split: option.splits)
  with c s r cl that show thesis by blast
qed

lemma make_or_get_Some:
  "make_or_get_collection w cfg (Some c) = Inr c' \<Longrightarrow> c' = c"
  by (auto simp: make_or_get_collection_def Let_def split: option.splits if_splits)

lemma path_in_iff: "path_in S r \<longleftrightarrow> (\<exists>p \<in> S. has_path p r)"
  by (auto simp: path_in_def has_path_def split: option.splits pyval.splits)

lemma stored_for_cleaned:
  assumes "p \<notin> S"
  shows "stored_for p (filter (\<lambda>r. \<not> path_in S r) xs) = stored_for p xs"
proof -
  have "\<not> path_in S r \<and> has_path p r \<longleftrightarrow> has_path p r" for r
    using assms by (auto simp: path_in_iff dest: has_path_unique)
  then show ?thesis by (simp add: stored_for_def)
qed

lemma cleanup_no_orphan_left:
  assumes "cleanup w g = (None, g')" and "r \<in> set (coll g')" and "has_path p r"
  shows "isfile w p"
proof (rule ccontr)
  assume n: "\<not> isfile w p"
  from cleanup_ok[OF assms(1)] assms(2)
  have rin: "r \<in> set (coll g)" and np: "\<not> path_in (orphan_paths w (coll g)) r" by auto
  from rin assms(3) n have "p \<in> orphan_paths w (coll g)" by (auto simp: orphan_paths_def)
  with assms(3) np show False by (auto simp: path_in_iff)
qed

lemma file_chunks_nonempty: "readable w (expand_path w f) \<Longrightarrow> file_chunks w cfg f \<noteq> []"
  by (auto simp: file_chunks_def dest: readable_read_chunks)

lemma stored_for_untouched:
  assumes "\<forall>f \<in> set sel. p \<noteq> expand_path w f"
  shows "stored_for p xs = stored_for p (filter (untouched w sel) xs)"
proof -
  have "has_path p r \<Longrightarrow> untouched w sel r" for r
    using assms by (auto simp: untouched_def dest: has_path_unique)
  then have "untouched w sel r \<and> has_path p r \<longleftrightarrow> has_path p r" for r by blast
  then show ?thesis by (simp add: stored_for_def)
qed

lemma no_path_untouched:
  "filter (\<lambda>r. \<forall>p. \<not> has_path p r) xs
     = filter (\<lambda>r. \<forall>p. \<not> has_path p r) (filter (untouched w sel) xs)"
proof -
  have "untouched w sel r \<and> (\<forall>p. \<not> has_path p r) \<longleftrightarrow> (\<forall>p. \<not> has_path p r)" for r
    by (auto simp: untouched_def)
  then show ?thesis by simp
qed

lemma pass_result:
  assumes "sync_tasks w cfg es (init_state docs sel msgs) = (AllDone, h)"
    and "cleanup w h = (None, h')"
    and "distinct (map (expand_path w) sel)" and "1 \<le> max_batch_size w"
  shows "(\<forall>f \<in> set sel. readable w (expand_path w f)
            \<and> map doc_content (stored_for (expand_path w f) (coll h'))
                = chunk_records (expand_path w f) (file_chunks w cfg f))
     \<and> filter (untouched w sel) (coll h')
         = filter (untouched w sel) (filter (\<lambda>r. \<not> path_in (orphan_paths w (coll h)) r) docs)
     \<and> (\<forall>r \<in> set (coll h'). \<forall>p. has_path p r \<longrightarrow> isfile w p)
     \<and> add (counters h') = int (length (filter (\<lambda>f. stored_for (expand_path w f) docs = []) sel))
     \<and> update (counters h')
         = int (length (filter (\<lambda>f. stored_for (expand_path w f) docs \<noteq> []) sel))
     \<and> removed (counters h') = int (card (orphan_paths w (coll h)))"
proof -
  note td = tasks_done[OF assms(1,3,4)]
  note ck = cleanup_ok[OF assms(2)]
  let ?O = "orphan_paths w (coll h)"
  have ch: "coll h' = filter (\<lambda>r. \<not> path_in ?O r) (coll h)" using ck by simp
  have 1: "\<forall>f \<in> set sel. readable w (expand_path w f)
            \<and> map doc_content (stored_for (expand_path w f) (coll h'))
                = chunk_records (expand_path w f) (file_chunks w cfg f)"
  proof
    fix f assume f: "f \<in> set sel"
    with td have rd: "readable w (expand_path w f)"
      and c: "map doc_content (stored_for (expand_path w f) (coll h))
                = chunk_records (expand_path w f) (file_chunks w cfg f)"
      by simp_all
    from rd have isf: "isfile w (expand_path w f)" by (simp add: readable_def)
    from isf have "expand_path w f \<notin> ?O" by (simp add: orphan_paths_def)
    then have "stored_for (expand_path w f) (coll h') = stored_for (expand_path w f) (coll h)"
      unfolding ch by (rule stored_for_cleaned)
    with rd c show "readable w (expand_path w f)
            \<and> map doc_content (stored_for (expand_path w f) (coll h'))
                = chunk_records (expand_path w f) (file_chunks w cfg f)" by simp
  qed
  have "filter (untouched w sel) (coll h')
      = filter (\<lambda>r. \<not> path_in ?O r) (filter (untouched w sel) (coll h))"
    unfolding ch by (simp add: conj_commute)
  also have "\<dots> = filter (\<lambda>r. \<not> path_in ?O r) (filter (untouched w sel) docs)"
    using td by simp
  also have "\<dots> = filter (untouched w sel) (filter (\<lambda>r. \<not> path_in ?O r) docs)"
    by (simp add: conj_commute)
  finally have 2: "filter (untouched w sel) (coll h')
         = filter (untouched w sel) (filter (\<lambda>r. \<not> path_in ?O r) docs)" .
  have 3: "\<forall>r \<in> set (coll h'). \<forall>p. has_path p r \<longrightarrow> isfile w p"
    using cleanup_no_orphan_left[OF assms(2)] by blast
  have 4: "removed (counters h') = int (card ?O)"
    using ck td by (cases "coll h = []") simp_all
  from 1 2 3 4 td ck show ?thesis by simp
qed

lemma ex_select2: "select_files ex_world2 ex_config = [''/p/a.txt'']"
  by (simp add: select_files_def gitignore_path_def ex_world_def ex_world2_def ex_config_def)

lemma ex_setup0:
  "make_or_get_collection ex_world ex_config (Some \<lparr>c_metadata = Some ex_md0, c_docs = ds\<rparr>)
     = Inr \<lparr>c_metadata = Some ex_md0, c_docs = ds\<rparr>"
  "make_or_get_collection ex_world2 ex_config (Some \<lparr>c_metadata = Some ex_md0, c_docs = ds\<rparr>)
     = Inr \<lparr>c_metadata = Some ex_md0, c_docs = ds\<rparr>"
  "verify_ef (c_metadata \<lparr>c_metadata = Some ex_md0, c_docs = ds\<rparr>) ex_config = Inr (True, [])"
  by (simp_all add: make_or_get_collection_def verify_ef_def ex_md0_def
        ex_world_def ex_world2_def ex_config_def)

lemma ex_first_pass:
  "vectorise ex_world ex_config ex_sched (Some \<lparr>c_metadata = Some ex_md0, c_docs = ex_docs\<rparr>)
     = (Return 0, ex_pass1)"
  unfolding vectorise_ok[OF ex_setup0(1) ex_setup0(3)] ex_select
  by (simp add: ex_sync_run ex_finish ex_pass1_def)

lemma ex_coll1:
  "coll ex_pass1 =
     [\<lparr>rid = ''num'', document = ''z'', metadata = Some [(''path'', PInt 7)]\<rparr>,
      \<lparr>rid = ''f'', document = ''hello'', metadata = Some [(''path'', PStr ''/p/a.txt'')]\<rparr>,
      \<lparr>rid = ''ff'', document = ''a.txt'', metadata = Some [(''path'', PStr ''/p/a.txt'')]\<rparr>]"
  by (simp add: ex_pass1_def show_stats_def ex_cleaned_def)

lemma ex_second_sync:
  "sync_tasks ex_world2 ex_config ex_sched1 (init_state (coll ex_pass1) [''/p/a.txt''] [])
     = (AllDone, ex_pass2\<lparr>calls := butlast (calls ex_pass2), out := []\<rparr>)"
  unfolding ex_coll1
  by (simp add: sync_tasks_def ex_sched1_def init_state_def step_defs read_chunks_def main_step_def ex_world_def
        ex_world2_def has_path_def new_records_def ex_config_def ex_pass2_def)

lemma ex_second_cleanup:
  "cleanup ex_world2 (ex_pass2\<lparr>calls := butlast (calls ex_pass2), out := []\<rparr>)
     = (None, ex_pass2\<lparr>out := []\<rparr>)"
  by (simp add: cleanup_def Let_def issue_def isfile_def ex_world_def ex_world2_def ex_pass2_def)

lemma ex_second_pass:
  "vectorise ex_world2 ex_config ex_sched1 (Some \<lparr>c_metadata = Some ex_md0, c_docs = coll ex_pass1\<rparr>)
     = (Return 0, ex_pass2)"
proof -
  have "vectorise ex_world2 ex_config ex_sched1
          (Some \<lparr>c_metadata = Some ex_md0, c_docs = coll ex_pass1\<rparr>)
      = finish_pass ex_world2 ex_config
          (sync_tasks ex_world2 ex_config ex_sched1
             (init_state (c_docs \<lparr>c_metadata = Some ex_md0, c_docs = coll ex_pass1\<rparr>)
                (select_files ex_world2 ex_config) []))"
    by (rule vectorise_ok[OF ex_setup0(2) ex_setup0(3)])
  also have "\<dots> = finish_pass ex_world2 ex_config
      (AllDone, ex_pass2\<lparr>calls := butlast (calls ex_pass2), out := []\<rparr>)"
    by (simp add: ex_select2 ex_second_sync)
  also have "\<dots> = (Return 0, ex_pass2)"
    by (simp add: finish_pass_def ex_second_cleanup show_stats_def) (simp add: ex_pass2_def ex_config_def)
  finally show ?thesis .
qed

lemma doc_content_has_path:
  "doc_content r = doc_content r' \<Longrightarrow> has_path p r = has_path p r'"
  by (simp add: doc_content_def has_path_def)

lemma count_by_path:
  assumes "\<forall>p. map doc_content (stored_for p xs) = map doc_content (stored_for p ys)"
    and "map doc_content (filter (\<lambda>r. \<forall>p. \<not> has_path p r) xs)
           = map doc_content (filter (\<lambda>r. \<forall>p. \<not> has_path p r) ys)"
  shows "count_list (map doc_content xs) c = count_list (map doc_content ys) c"
proof -
  have cnt: "count_list (map doc_content zs) c = length (filter (\<lambda>r. doc_content r = c) zs)" for zs
    by (simp add: count_list_eq_length_filter length_filter_map comp_def eq_commute)
  show ?thesis
  proof (cases "\<exists>r. doc_content r = c \<and> (\<exists>p. has_path p r)")
    case True
    then obtain r0 p where r0: "doc_content r0 = c" "has_path p r0" by blast
    have sub: "filter (\<lambda>r. doc_content r = c) zs = filter (\<lambda>r. doc_content r = c) (stored_for p zs)" for zs
    proof -
      have "has_path p r \<and> doc_content r = c \<longleftrightarrow> doc_content r = c" for r
        using r0 doc_content_has_path[of r r0 p] by auto
      then show ?thesis by (simp add: stored_for_def)
    qed
    have k: "count_list (map doc_content zs) c
        = count_list (map doc_content (stored_for p zs)) c" for zs
      by (simp only: cnt sub[symmetric])
    have "count_list (map doc_content xs) c = count_list (map doc_content (stored_for p xs)) c"
      by (rule k)
    also have "\<dots> = count_list (map doc_content (stored_for p ys)) c"
      using assms(1) by simp
    also have "\<dots> = count_list (map doc_content ys) c"
      by (rule k[symmetric])
    finally show ?thesis .
  next
    case False
    have sub: "filter (\<lambda>r. doc_content r = c) zs
        = filter (\<lambda>r. doc_content r = c) (filter (\<lambda>r. \<forall>p. \<not> has_path p r) zs)" for zs
    proof -
      have "(\<forall>p. \<not> has_path p r) \<and> doc_content r = c \<longleftrightarrow> doc_content r = c" for r
        using False by auto
      then show ?thesis by simp
    qed
    have k: "count_list (map doc_content zs) c
        = count_list (map doc_content (filter (\<lambda>r. \<forall>p. \<not> has_path p r) zs)) c" for zs
      by (simp only: cnt sub[symmetric])
    have "count_list (map doc_content xs) c
        = count_list (map doc_content (filter (\<lambda>r. \<forall>p. \<not> has_path p r) xs)) c"
      by (rule k)
    also have "\<dots> = count_list (map doc_content (filter (\<lambda>r. \<forall>p. \<not> has_path p r) ys)) c"
      using assms(2) by simp
    also have "\<dots> = count_list (map doc_content ys) c"
      by (rule k[symmetric])
    finally show ?thesis .
  qed
qed

lemma second_pass_same_content:
  assumes "vectorise w cfg es remote = (Return 0, g1)"
    and "vectorise (w\<lparr>get_uuid := u2, net := n2\<rparr>) cfg es2
           (Some \<lparr>c_metadata = md, c_docs = coll g1\<rparr>) = (Return 0, g2)"
    and "distinct (map (expand_path w) (select_files w cfg))"
    and "1 \<le> max_batch_size w"
  shows "counters g2 = \<lparr>add = 0, update = int (length (select_files w cfg)), removed = 0\<rparr>
     \<and> (\<forall>p. map doc_content (stored_for p (coll g2)) = map doc_content (stored_for p (coll g1)))
     \<and> filter (\<lambda>r. \<forall>p. \<not> has_path p r) (coll g2)
         = filter (\<lambda>r. \<forall>p. \<not> has_path p r) (coll g1)
     \<and> (\<forall>c. count_list (map doc_content (coll g2)) c = count_list (map doc_content (coll g1)) c)"
proof -
  define w2 where "w2 = w\<lparr>get_uuid := u2, net := n2\<rparr>"
  define sel where "sel = select_files w cfg"
  have same: "select_files w2 cfg = sel" "expand_path w2 = expand_path w"
    "max_batch_size w2 = max_batch_size w" "isfile w2 = isfile w"
    "file_chunks w2 cfg = file_chunks w cfg" "untouched w2 sel = untouched w sel"
    by (auto simp: w2_def sel_def select_files_def isfile_def file_chunks_def untouched_def
          read_chunks_def fun_eq_iff Let_def split: option.splits)
  from assms(1) obtain c msgs h1 h1' where
    "make_or_get_collection w cfg remote = Inr c"
    and s1': "sync_tasks w cfg es (init_state (c_docs c) (select_files w cfg) msgs) = (AllDone, h1)"
    and c1: "cleanup w h1 = (None, h1')" and g1: "g1 = show_stats cfg h1'"
    by (rule vectorise_Return0)
  from s1' have s1: "sync_tasks w cfg es (init_state (c_docs c) sel msgs) = (AllDone, h1)"
    by (simp add: sel_def)
  from assms(2) obtain c' msgs2 h2 h2' where
    m2: "make_or_get_collection w2 cfg (Some \<lparr>c_metadata = md, c_docs = coll g1\<rparr>) = Inr c'"
    and s2': "sync_tasks w2 cfg es2 (init_state (c_docs c') (select_files w2 cfg) msgs2)
               = (AllDone, h2)"
    and c2: "cleanup w2 h2 = (None, h2')" and g2: "g2 = show_stats cfg h2'"
    unfolding w2_def[symmetric] by (rule vectorise_Return0)
  let ?D = "coll h1'"
  from make_or_get_Some[OF m2] g1 have "c_docs c' = ?D" by (simp add: show_stats_def)
  with s2' have s2: "sync_tasks w2 cfg es2 (init_state ?D sel msgs2) = (AllDone, h2)"
    by (simp add: same)
  have d: "distinct (map (expand_path w) sel)" using assms(3) by (simp add: sel_def)
  have d2: "distinct (map (expand_path w2) sel)" using d by (simp add: same)
  have mb2: "1 \<le> max_batch_size w2" using assms(4) by (simp add: same)
  note p1 = pass_result[OF s1 c1 d assms(4)]
  note t2 = tasks_done[OF s2 d2 mb2, unfolded same]
  note k2 = cleanup_ok[OF c2]
  have D_files: "map doc_content (stored_for (expand_path w f) ?D)
      = chunk_records (expand_path w f) (file_chunks w cfg f)"
    and D_readable: "readable w (expand_path w f)" if "f \<in> set sel" for f
    using p1 that by simp_all
  have D_isfile: "isfile w (expand_path w f)" if "f \<in> set sel" for f
    using D_readable[OF that] by (simp add: readable_def)
  have D_nonempty: "stored_for (expand_path w f) ?D \<noteq> []" if "f \<in> set sel" for f
  proof
    assume e: "stored_for (expand_path w f) ?D = []"
    from D_readable[OF that] have "file_chunks w cfg f \<noteq> []"
      by (rule file_chunks_nonempty)
    with D_files[OF that] e show False by (simp add: chunk_records_def)
  qed
  have D_clean: "isfile w p" if "r \<in> set ?D" "has_path p r" for r p
    using p1 that by blast
  have O2: "orphan_paths w2 (coll h2) = {}"
  proof (rule ccontr)
    assume "orphan_paths w2 (coll h2) \<noteq> {}"
    then obtain p r where r: "r \<in> set (coll h2)" and hp: "has_path p r"
      and nf: "\<not> isfile w p"
      by (auto simp: orphan_paths_def same)
    show False
    proof (cases "\<exists>f \<in> set sel. p = expand_path w f")
      case True
      with D_isfile nf show False by auto
    next
      case False
      with hp have "untouched w sel r"
        by (auto simp: untouched_def dest: has_path_unique)
      with r have "r \<in> set (filter (untouched w sel) (coll h2))" by simp
      with t2 have "r \<in> set ?D" by simp
      from D_clean[OF this hp] nf show False by simp
    qed
  qed
  with k2 have coll2: "coll h2' = coll h2" and rem2: "removed (counters h2') = 0"
    using t2 by (simp_all split: if_splits)
  have add2: "add (counters h2') = 0"
    using k2 t2 D_nonempty by (simp add: filter_empty_conv)
  have "filter (\<lambda>f. stored_for (expand_path w f) ?D \<noteq> []) sel = sel"
    using D_nonempty by (simp add: filter_id_conv)
  then have upd2: "update (counters h2') = int (length sel)"
    using k2 t2 by simp
  have 1: "counters g2 = \<lparr>add = 0, update = int (length (select_files w cfg)), removed = 0\<rparr>"
    using add2 upd2 rem2 by (simp add: g2 show_stats_def sel_def)
  have 2: "\<forall>p. map doc_content (stored_for p (coll g2)) = map doc_content (stored_for p (coll g1))"
  proof
    fix p
    show "map doc_content (stored_for p (coll g2)) = map doc_content (stored_for p (coll g1))"
    proof (cases "\<exists>f \<in> set sel. p = expand_path w f")
      case True
      then obtain f where f: "f \<in> set sel" "p = expand_path w f" by blast
      with t2 D_files[OF f(1)] show ?thesis
        by (simp add: g1 g2 show_stats_def coll2)
    next
      case False
      then have np: "\<forall>f \<in> set sel. p \<noteq> expand_path w f" by blast
      have "stored_for p (coll h2) = stored_for p (filter (untouched w sel) (coll h2))"
        using np by (rule stored_for_untouched)
      also have "\<dots> = stored_for p (filter (untouched w sel) ?D)" using t2 by simp
      also have "\<dots> = stored_for p ?D"
        using np by (rule stored_for_untouched[symmetric])
      finally show ?thesis by (simp add: g1 g2 show_stats_def coll2)
    qed
  qed
  have "filter (\<lambda>r. \<forall>p. \<not> has_path p r) (coll h2)
      = filter (\<lambda>r. \<forall>p. \<not> has_path p r) (filter (untouched w sel) (coll h2))"
    by (rule no_path_untouched)
  also have "\<dots> = filter (\<lambda>r. \<forall>p. \<not> has_path p r) (filter (untouched w sel) ?D)"
    using t2 by simp
  also have "\<dots> = filter (\<lambda>r. \<forall>p. \<not> has_path p r) ?D"
    by (rule no_path_untouched[symmetric])
  finally have 3: "filter (\<lambda>r. \<forall>p. \<not> has_path p r) (coll g2)
         = filter (\<lambda>r. \<forall>p. \<not> has_path p r) (coll g1)"
    by (simp add: g1 g2 show_stats_def coll2)
  from 2 3 have 4: "\<forall>c. count_list (map doc_content (coll g2)) c
      = count_list (map doc_content (coll g1)) c"
    by (intro allI count_by_path) simp_all
  from 1 2 3 4 show ?thesis by blast
qed

subsection \<open>A pass on a fault-free network completes\<close>

lemma task_step_bar [simp]: "bar (task_step w cfg m i g) = bar g"
  by (cases rule: task_step_cases[of w cfg m i g]) simp_all

lemma reach_step:
  assumes "\<exists>es g'. run_pool w cfg m es (task_step w cfg m i g) = (Pending, g') \<and> P g'"
  shows "\<exists>es g'. run_pool w cfg m es g = (Pending, g') \<and> P g'"
proof -
  from assms obtain es g' where "run_pool w cfg m es (task_step w cfg m i g) = (Pending, g')" "P g'"
    by blast
  then have "run_pool w cfg m (Task i # es) g = (Pending, g') \<and> P g'" by simp
  then show ?thesis by blast
qed

lemma solo_done_via:
  assumes "solo_done i (task_step w cfg m i g) g'"
    and "queue (task_step w cfg m i g) = queue g"
  shows "solo_done i g g'"
  using assms by (auto simp: solo_done_def task_step_other)

lemma adding_loop:
  assumes "i < length (tasks g)" and "snd (tasks g ! i) = Adding chunks idx"
    and "lock g = None \<or> lock g = Some i" and "\<forall>k. net w k = Ok" and "0 < m"
  shows "\<exists>es g'. run_pool w cfg m es g = (Pending, g') \<and> solo_done i g g'"
  using assms(1-3)
proof (induction "length chunks - idx" arbitrary: g idx rule: less_induct)
  case less
  show ?case
  proof (cases "length chunks \<le> idx")
    case True
    with less.prems assms(5) have
      "snd (tasks (task_step w cfg m i g) ! i) = Finished"
      "lock (task_step w cfg m i g) = None"
      "queue (task_step w cfg m i g) = queue g @ [i]"
      by (auto simp: step_defs)
    then have "run_pool w cfg m [Task i] g = (Pending, task_step w cfg m i g)
        \<and> solo_done i g (task_step w cfg m i g)"
      by (simp add: solo_done_def task_step_other)
    then show ?thesis by blast
  next
    case False
    let ?g1 = "task_step w cfg m i g"
    from False less.prems assms(4,5) have
      pc: "snd (tasks ?g1 ! i) = Adding chunks (idx + nat m)"
      and lk: "lock ?g1 = Some i" and q: "queue ?g1 = queue g"
      by (auto simp: step_defs)
    from False assms(5) have dec: "length chunks - (idx + nat m) < length chunks - idx"
      by simp
    have "\<exists>es g'. run_pool w cfg m es ?g1 = (Pending, g') \<and> solo_done i ?g1 g'"
      using less.hyps[OF dec _ pc] less.prems(1) lk by simp
    then have "\<exists>es g'. run_pool w cfg m es ?g1 = (Pending, g') \<and> solo_done i g g'"
      using q by (auto intro: solo_done_via)
    then show ?thesis by (rule reach_step)
  qed
qed

lemma solo_run:
  assumes "i < length (tasks g)" and "snd (tasks g ! i) = Start" and "lock g = None"
    and "\<forall>k. net w k = Ok" and "readable w (expand_path w (fst (tasks g ! i)))" and "0 < m"
  shows "\<exists>es g'. run_pool w cfg m es g = (Pending, g') \<and> solo_done i g g'"
proof -
  let ?g1 = "task_step w cfg m i g"
  from assms obtain n where
    pc1: "snd (tasks ?g1 ! i) = Found n" and lk1: "lock ?g1 = None" and q1: "queue ?g1 = queue g"
    by (auto simp: step_defs)
  have i1: "i < length (tasks ?g1)" using assms(1) by simp
  have f1: "readable w (expand_path w (fst (tasks ?g1 ! i)))" using assms(5) by simp
  have reading: "\<exists>es g'. run_pool w cfg m es h = (Pending, g') \<and> solo_done i h g'"
    if "i < length (tasks h)" "snd (tasks h ! i) = Reading" "lock h = None"
      "readable w (expand_path w (fst (tasks h ! i)))" for h
  proof -
    let ?h1 = "task_step w cfg m i h"
    from readable_read_chunks[OF that(4)] obtain cs where
      "read_chunks w (expand_path w (fst (tasks h ! i))) = Inr cs" by blast
    with that obtain C where pc: "snd (tasks ?h1 ! i) = Adding C 0"
      and lk: "lock ?h1 = None" and q: "queue ?h1 = queue h"
      by (auto simp: step_defs)
    from that(1) have "i < length (tasks ?h1)" by simp
    from adding_loop[OF this pc _ assms(4,6)] lk
    have "\<exists>es g'. run_pool w cfg m es ?h1 = (Pending, g') \<and> solo_done i ?h1 g'" by simp
    then have "\<exists>es g'. run_pool w cfg m es ?h1 = (Pending, g') \<and> solo_done i h g'"
      using q by (auto intro: solo_done_via)
    then show ?thesis by (rule reach_step)
  qed
  have found: "\<exists>es g'. run_pool w cfg m es ?g1 = (Pending, g') \<and> solo_done i ?g1 g'"
  proof (cases "n = 0")
    case True
    let ?g2 = "task_step w cfg m i ?g1"
    from True pc1 i1 lk1 have pc2: "snd (tasks ?g2 ! i) = Reading" and lk2: "lock ?g2 = None"
      and q2: "queue ?g2 = queue ?g1"
      by (auto simp: step_defs)
    have "\<exists>es g'. run_pool w cfg m es ?g2 = (Pending, g') \<and> solo_done i ?g2 g'"
      using i1 pc2 lk2 f1 by (intro reading) simp_all
    then have "\<exists>es g'. run_pool w cfg m es ?g2 = (Pending, g') \<and> solo_done i ?g1 g'"
      using q2 by (auto intro: solo_done_via)
    then show ?thesis by (rule reach_step)
  next
    case False
    let ?g2 = "task_step w cfg m i ?g1"
    from False pc1 i1 lk1 assms(4) have pc2: "snd (tasks ?g2 ! i) = Deleted"
      and lk2: "lock ?g2 = None" and q2: "queue ?g2 = queue ?g1"
      by (auto simp: step_defs)
    let ?g3 = "task_step w cfg m i ?g2"
    have i2: "i < length (tasks ?g2)" using i1 by simp
    from pc2 i2 lk2 have pc3: "snd (tasks ?g3 ! i) = Reading" and lk3: "lock ?g3 = None"
      and q3: "queue ?g3 = queue ?g2"
      by (auto simp: step_defs)
    have "\<exists>es g'. run_pool w cfg m es ?g3 = (Pending, g') \<and> solo_done i ?g3 g'"
      using i2 pc3 lk3 f1 by (intro reading) simp_all
    then have "\<exists>es g'. run_pool w cfg m es ?g3 = (Pending, g') \<and> solo_done i ?g2 g'"
      using q3 by (auto intro: solo_done_via)
    then have "\<exists>es g'. run_pool w cfg m es ?g2 = (Pending, g') \<and> solo_done i ?g2 g'"
      by (rule reach_step)
    then have "\<exists>es g'. run_pool w cfg m es ?g2 = (Pending, g') \<and> solo_done i ?g1 g'"
      using q2 by (auto intro: solo_done_via)
    then show ?thesis by (rule reach_step)
  qed
  then have "\<exists>es g'. run_pool w cfg m es ?g1 = (Pending, g') \<and> solo_done i g g'"
    using q1 by (auto intro: solo_done_via)
  then show ?thesis by (rule reach_step)
qed

lemma well_formed_new_records [simp]: "well_formed (new_records w k p ins)"
  by (auto simp: well_formed_def new_records_def)

lemma well_formed_simps [simp]:
  "well_formed (xs @ ys) \<longleftrightarrow> well_formed xs \<and> well_formed ys"
  "well_formed xs \<Longrightarrow> well_formed (filter P xs)"
  by (auto simp: well_formed_def)

lemma task_step_well_formed:
  "well_formed (coll g) \<Longrightarrow> well_formed (coll (task_step w cfg m i g))"
  by (cases rule: task_step_cases[of w cfg m i g]) simp_all

lemma run_pool_well_formed:
  assumes "run_pool w cfg m es g = (r, g')" and "well_formed (coll g)"
  shows "well_formed (coll g')"
  by (rule run_pool_invariant[OF assms(1), where P = "\<lambda>h. well_formed (coll h)"])
     (simp_all add: assms(2) task_step_well_formed)

lemma collect_orphanes_well_formed:
  "well_formed docs \<Longrightarrow> \<exists>S. collect_orphanes w (map metadata docs) acc = Inr S"
proof (induction docs arbitrary: acc)
  case Nil
  then show ?case by simp
next
  case (Cons r docs)
  from Cons.prems obtain md v where r: "metadata r = Some md" "map_of md ''path'' = Some v"
    and wf: "well_formed docs"
    by (auto simp: well_formed_def)
  from Cons.IH[OF wf] r show ?case by (cases v) simp_all
qed

lemma cleanup_succeeds:
  assumes "\<forall>k. net w k = Ok" and "well_formed (coll g)"
  shows "\<exists>g'. cleanup w g = (None, g') \<and> well_formed (coll g')"
proof -
  from collect_orphanes_well_formed[OF assms(2), of w "{}"]
  obtain S where S: "collect_orphanes w (map metadata (coll g)) {} = Inr S" by blast
  with assms show ?thesis
    by (auto simp: cleanup_def Let_def issue_def)
qed

lemma drain_finished:
  "\<forall>i \<in> set q. snd (ts ! i) = Finished \<Longrightarrow> drain ts q b = (None, [], b + length q)"
  by (induction q arbitrary: b) simp_all

lemma all_tasks_run:
  assumes "\<forall>k. net w k = Ok" and "0 < m"
    and "\<forall>i < length (tasks g). readable w (expand_path w (fst (tasks g ! i)))"
    and "k \<le> length (tasks g)" and "lock g = None" and "queue g = [0..<k]"
    and "\<forall>i < length (tasks g). snd (tasks g ! i) = (if i < k then Finished else Start)"
  shows "\<exists>es g'. run_pool w cfg m es g = (Pending, g')
           \<and> length (tasks g') = length (tasks g) \<and> bar g' = bar g
           \<and> queue g' = [0..<length (tasks g)]
           \<and> (\<forall>i < length (tasks g). snd (tasks g' ! i) = Finished)"
  using assms(3-7)
proof (induction "length (tasks g) - k" arbitrary: g k)
  case 0
  then have "k = length (tasks g)" by simp
  with 0 have "run_pool w cfg m [] g = (Pending, g)
           \<and> length (tasks g) = length (tasks g) \<and> bar g = bar g
           \<and> queue g = [0..<length (tasks g)]
           \<and> (\<forall>i < length (tasks g). snd (tasks g ! i) = Finished)"
    by simp
  then show ?case by blast
next
  case (Suc d)
  then have k: "k < length (tasks g)" by simp
  with Suc.prems have st: "snd (tasks g ! k) = Start"
    and f: "readable w (expand_path w (fst (tasks g ! k)))" by simp_all
  from solo_run[OF k st Suc.prems(3) assms(1) f assms(2)]
  obtain es1 g1 where r1: "run_pool w cfg m es1 g = (Pending, g1)" and sd: "solo_done k g g1"
    by blast
  from sd have len: "length (tasks g1) = length (tasks g)" and lk: "lock g1 = None"
    and q: "queue g1 = queue g @ [k]" and b: "bar g1 = bar g"
    and fin: "snd (tasks g1 ! k) = Finished"
    and oth: "\<And>j. j \<noteq> k \<Longrightarrow> tasks g1 ! j = tasks g ! j"
    by (simp_all add: solo_done_def)
  from run_pool_fst[OF r1] have fst1: "fst (tasks g1 ! i) = fst (tasks g ! i)" for i .
  have 1: "Suc d - 1 = length (tasks g1) - Suc k" using Suc.hyps(2) len by simp
  have d: "d = length (tasks g1) - Suc k" using Suc.hyps(2) len by simp
  have p3: "\<forall>i < length (tasks g1). readable w (expand_path w (fst (tasks g1 ! i)))"
    using Suc.prems(1) len fst1 by simp
  have p4: "Suc k \<le> length (tasks g1)" using k len by simp
  have p6: "queue g1 = [0..<Suc k]" using q Suc.prems(4) by simp
  have p7: "\<forall>i < length (tasks g1). snd (tasks g1 ! i) = (if i < Suc k then Finished else Start)"
  proof (intro allI impI)
    fix i assume "i < length (tasks g1)"
    with len Suc.prems(5) fin oth[of i]
    show "snd (tasks g1 ! i) = (if i < Suc k then Finished else Start)"
      by (cases "i = k") (auto simp: less_Suc_eq)
  qed
  from Suc.hyps(1)[OF d p3 p4 lk p6 p7]
  obtain es2 g2 where r2: "run_pool w cfg m es2 g1 = (Pending, g2)"
    and c: "length (tasks g2) = length (tasks g1)" "bar g2 = bar g1"
      "queue g2 = [0..<length (tasks g1)]"
      "\<forall>i < length (tasks g1). snd (tasks g2 ! i) = Finished"
    by blast
  from run_pool_append[OF r1, of es2] r2
  have "run_pool w cfg m (es1 @ es2) g = (Pending, g2)" by simp
  with c len b show ?case by auto
qed

lemma sync_completes:
  assumes "\<forall>k. net w k = Ok" and "0 < max_batch_size w"
    and "\<forall>f \<in> set sel. readable w (expand_path w f)" and "well_formed docs"
  shows "\<exists>es g. sync_tasks w cfg es (init_state docs sel msgs) = (AllDone, g)
           \<and> well_formed (coll g)"
proof (cases "sel = []")
  case True
  with assms(4) show ?thesis by (simp add: sync_tasks_def init_state_def)
next
  case False
  let ?g0 = "init_state docs sel msgs"
  let ?m = "max_batch_size w"
  have "\<exists>es g'. run_pool w cfg ?m es ?g0 = (Pending, g')
           \<and> length (tasks g') = length (tasks ?g0) \<and> bar g' = bar ?g0
           \<and> queue g' = [0..<length (tasks ?g0)]
           \<and> (\<forall>i < length (tasks ?g0). snd (tasks g' ! i) = Finished)"
    using assms(3)
    by (intro all_tasks_run[OF assms(1,2), where k = 0])
       (simp_all add: init_state_def)
  then obtain es g' where r: "run_pool w cfg ?m es ?g0 = (Pending, g')"
    and len: "length (tasks g') = length sel" and b: "bar g' = 0"
    and q: "queue g' = [0..<length sel]"
    and fin: "\<forall>i < length sel. snd (tasks g' ! i) = Finished"
    by (auto simp: init_state_def)
  from fin q have "drain (tasks g') (queue g') (bar g') = (None, [], bar g' + length (queue g'))"
    by (intro drain_finished) simp
  with b q len have ms: "main_step g' = (AllDone, g'\<lparr>queue := [], bar := length sel\<rparr>)"
    by (simp add: main_step_def)
  from run_pool_append[OF r, of "[Main]"] ms
  have rp: "run_pool w cfg ?m (es @ [Main]) ?g0 = (AllDone, g'\<lparr>queue := [], bar := length sel\<rparr>)"
    by simp
  have "well_formed (coll ?g0)" using assms(4) by (simp add: init_state_def)
  with rp have wf: "well_formed (coll (g'\<lparr>queue := [], bar := length sel\<rparr>))"
    by (rule run_pool_well_formed)
  from False have "tasks ?g0 \<noteq> []" by (simp add: init_state_def)
  with rp have "sync_tasks w cfg (es @ [Main]) ?g0
      = (AllDone, g'\<lparr>queue := [], bar := length sel\<rparr>)"
    by (simp add: sync_tasks_def)
  with wf show ?thesis by blast
qed

lemma pass_completes:
  assumes "make_or_get_collection w cfg remote = Inr c"
    and "verify_ef (c_metadata c) cfg = Inr (True, msgs)"
    and "\<forall>k. net w k = Ok" and "0 < max_batch_size w"
    and "\<forall>f \<in> set (select_files w cfg). readable w (expand_path w f)"
    and "well_formed (c_docs c)"
  shows "\<exists>es g. vectorise w cfg es remote = (Return 0, g) \<and> well_formed (coll g)"
proof -
  from sync_completes[OF assms(3,4,5,6), of cfg msgs]
  obtain es h where s: "sync_tasks w cfg es (init_state (c_docs c) (select_files w cfg) msgs)
      = (AllDone, h)" and wf: "well_formed (coll h)" by blast
  from cleanup_succeeds[OF assms(3) wf] obtain h' where
    cl: "cleanup w h = (None, h')" and wf': "well_formed (coll h')" by blast
  have "vectorise w cfg es remote = (Return 0, show_stats cfg h')"
    unfolding vectorise_ok[OF assms(1,2)] s by (simp add: finish_pass_def cl)
  moreover have "well_formed (coll (show_stats cfg h'))" using wf' by (simp add: show_stats_def)
  ultimately show ?thesis by blast
qed

lemma make_or_get_again:
  assumes "make_or_get_collection w cfg remote = Inr c"
  shows "make_or_get_collection (w\<lparr>get_uuid := u2, net := n2\<rparr>) cfg
           (Some \<lparr>c_metadata = c_metadata c, c_docs = ds\<rparr>)
         = Inr \<lparr>c_metadata = c_metadata c, c_docs = ds\<rparr>"
  using assms
  by (auto simp: make_or_get_collection_def Let_def split: option.splits if_splits)

lemma two_passes_complete:
  assumes "make_or_get_collection w cfg remote = Inr c"
    and "verify_ef (c_metadata c) cfg = Inr (True, msgs)"
    and "\<forall>k. net w k = Ok" and "0 < max_batch_size w"
    and "\<forall>f \<in> set (select_files w cfg). readable w (expand_path w f)"
    and "well_formed (c_docs c)"
  shows "\<exists>es g1 es2 g2. vectorise w cfg es remote = (Return 0, g1)
      \<and> vectorise (w\<lparr>get_uuid := u2, net := (\<lambda>k. Ok)\<rparr>) cfg es2
           (Some \<lparr>c_metadata = c_metadata c, c_docs = coll g1\<rparr>) = (Return 0, g2)"
proof -
  from pass_completes[OF assms] obtain es g1 where
    1: "vectorise w cfg es remote = (Return 0, g1)" and wf: "well_formed (coll g1)" by blast
  let ?w2 = "w\<lparr>get_uuid := u2, net := (\<lambda>k. Ok)\<rparr>"
  let ?c2 = "\<lparr>c_metadata = c_metadata c, c_docs = coll g1\<rparr>"
  have m2: "make_or_get_collection ?w2 cfg (Some ?c2) = Inr ?c2"
    by (rule make_or_get_again[OF assms(1)])
  have v2: "verify_ef (c_metadata ?c2) cfg = Inr (True, msgs)" using assms(2) by simp
  have sel: "select_files ?w2 cfg = select_files w cfg"
    by (simp add: select_files_def Let_def split: option.splits)
  have "\<exists>es g. vectorise ?w2 cfg es (Some ?c2) = (Return 0, g) \<and> well_formed (coll g)"
    using assms(4,5) wf
    by (intro pass_completes[OF m2 v2]) (simp_all add: sel readable_def isfile_def)
  with 1 show ?thesis by blast
qed

lemma ex_well_formed: "well_formed ex_docs"
  by (simp add: well_formed_def ex_docs_def)

end
